theory Spec2Isabelle
  imports Main "HOL-Library.Word"
begin

unbundle bit_operations_syntax

section \<open>Data model and Go primitives\<close>

text \<open>
  Bytes are 8-bit words, the bit buffer holds a 32-bit word, Go's \<open>int\<close> values
  (indices, lengths, frequencies) are modelled as \<open>int\<close>, and a rune (Go's \<open>int32\<close>) is the
  number of its code point. Every error return, runtime panic and \<open>os.Exit\<close> of the source
  is a value of type \<open>error\<close>; a function that can fail returns \<open>error + 'a\<close>.
\<close>

type_synonym byte = "8 word"
type_synonym u32 = "32 word"
type_synonym rune = int

datatype error =
    Panic | Diverged
  | UnsupportedAlgorithm
  | NotEnoughBits | TooManyBits
  | TraversalFailed | NoRuleMatch | CondensedOnEmpty
  | TokenOverlap | TokenTooLong | TokenTooFar
  | LengthOutOfRange | DistanceOutOfRange | NoLengthCode | NoDistanceCode
  | TreeTooLong | LengthTooLong | ZerosTooLong | SameTooLong | BitsNotWritten
  | TrailerInsufficient | SizeMismatch | CrcMismatch
  | UnescapedLiteral | AtoiError
  | ReaderNotClosed | WriteAfterClose | ClosedPipe | UnexpectedProcessing

definition andThen :: "'e + 'a \<Rightarrow> ('a \<Rightarrow> 'e + 'b) \<Rightarrow> 'e + 'b" where
  "andThen m f = (case m of Inl e \<Rightarrow> Inl e | Inr x \<Rightarrow> f x)"

lemma andThen_simps [simp, code]:
  "andThen (Inl e) f = Inl e"
  "andThen (Inr x) f = f x"
  by (simp_all add: andThen_def)

lemma andThen_cong [fundef_cong]:
  "m = m' \<Longrightarrow> (\<And>x. m' = Inr x \<Longrightarrow> f x = f' x) \<Longrightarrow> andThen m f = andThen m' f'"
  by (cases m') (simp_all add: andThen_def)

definition at :: "'a list \<Rightarrow> int \<Rightarrow> error + 'a" where
  "at xs i = (if 0 \<le> i \<and> i < int (length xs) then Inr (xs ! nat i) else Inl Panic)"

definition slice :: "'a list \<Rightarrow> int \<Rightarrow> int \<Rightarrow> error + 'a list" where
  "slice xs lo hi =
     (if 0 \<le> lo \<and> lo \<le> hi \<and> hi \<le> int (length xs)
      then Inr (take (nat (hi - lo)) (drop (nat lo) xs)) else Inl Panic)"

text \<open>A loop over a slice that stops at the first error.\<close>

fun foldE :: "('s \<Rightarrow> 'a \<Rightarrow> error + 's) \<Rightarrow> 'a list \<Rightarrow> 's \<Rightarrow> error + 's" where
  "foldE f [] s = Inr s"
| "foldE f (x # xs) s = andThen (f s x) (foldE f xs)"

definition utf8_encode_rune :: "rune \<Rightarrow> byte list" where
  "utf8_encode_rune r =
     (if 0 \<le> r \<and> r < 0x80 then [of_int r]
      else if 0 \<le> r \<and> r < 0x800 then [of_int (0xC0 + r div 64), of_int (0x80 + r mod 64)]
      else if r < 0 \<or> (0xD800 \<le> r \<and> r \<le> 0xDFFF) \<or> 0x10FFFF < r then [0xEF, 0xBF, 0xBD]
      else if r < 0x10000 then
        [of_int (0xE0 + r div 4096), of_int (0x80 + (r div 64) mod 64), of_int (0x80 + r mod 64)]
      else
        [of_int (0xF0 + r div 262144), of_int (0x80 + (r div 4096) mod 64),
         of_int (0x80 + (r div 64) mod 64), of_int (0x80 + r mod 64)])"

section \<open>Go strings, runes and number formatting\<close>

text \<open>
  A Go string is its byte sequence. \<open>[]rune(s)\<close> and \<open>for _, c := range s\<close> decode it
  as UTF-8: a byte sequence that is not a valid encoding yields the rune \<open>U+FFFD\<close> and
  consumes one byte. \<open>string(r)\<close> and \<open>[]byte(string(runes))\<close> encode as UTF-8
  (\<open>utf8_encode_rune\<close> above).
\<close>

definition DecodeRune :: "byte list \<Rightarrow> rune \<times> nat" where
  "DecodeRune p =
     (let n0 = uint (hd p);
          sz = (if n0 < 0xE0 then 2 else if n0 < 0xF0 then 3 else (4::nat));
          lo = (if n0 = 0xE0 then 0xA0 else if n0 = 0xF0 then 0x90 else (0x80::int));
          hi = (if n0 = 0xED then 0x9F else if n0 = 0xF4 then 0x8F else (0xBF::int)) in
      if n0 < 0x80 then (n0, 1)
      else if n0 < 0xC2 \<or> 0xF4 < n0 then (0xFFFD, 1)
      else if length p < sz then (0xFFFD, 1)
      else if uint (p ! 1) < lo \<or> hi < uint (p ! 1) then (0xFFFD, 1)
      else if sz = 2 then ((n0 mod 32) * 64 + uint (p ! 1) mod 64, 2)
      else if uint (p ! 2) < 0x80 \<or> 0xBF < uint (p ! 2) then (0xFFFD, 1)
      else if sz = 3 then
        ((n0 mod 16) * 4096 + (uint (p ! 1) mod 64) * 64 + uint (p ! 2) mod 64, 3)
      else if uint (p ! 3) < 0x80 \<or> 0xBF < uint (p ! 3) then (0xFFFD, 1)
      else ((n0 mod 8) * 262144 + (uint (p ! 1) mod 64) * 4096
              + (uint (p ! 2) mod 64) * 64 + uint (p ! 3) mod 64, 4))"

lemma DecodeRune_size: "0 < snd (DecodeRune p)"
  by (simp add: DecodeRune_def Let_def)

function utf8_decode :: "byte list \<Rightarrow> rune list" where
  "utf8_decode p =
     (if p = [] then []
      else fst (DecodeRune p) # utf8_decode (drop (snd (DecodeRune p)) p))"
  by pat_completeness auto
termination
  by (relation "measure length") (use DecodeRune_size in \<open>auto simp: neq_Nil_conv\<close>)

declare utf8_decode.simps [simp del]

definition utf8_encode :: "rune list \<Rightarrow> byte list" where
  "utf8_encode rs = concat (map utf8_encode_rune rs)"

text \<open>\<open>strconv.Itoa\<close>: the decimal digits of an integer.\<close>

function decDigits :: "int \<Rightarrow> byte list" where
  "decDigits n =
     (if n < 10 then [of_int (48 + n)] else decDigits (n div 10) @ [of_int (48 + n mod 10)])"
  by pat_completeness auto
termination
  by (relation "measure nat") auto

declare decDigits.simps [simp del]

definition Itoa :: "int \<Rightarrow> byte list" where
  "Itoa i = (if i < 0 then 45 # decDigits (- i) else decDigits i)"

text \<open>
  \<open>strconv.Atoi\<close> on the UTF-8 text of a rune slice: an optional sign followed by at
  least one ASCII digit; anything else is an error. The frequencies of this program fit
  Go's 64-bit \<open>int\<close>, whose overflow is not modelled.
\<close>

fun digitsVal :: "rune list \<Rightarrow> int \<Rightarrow> int option" where
  "digitsVal [] acc = Some acc"
| "digitsVal (r # rs) acc =
     (if 48 \<le> r \<and> r \<le> 57 then digitsVal rs (10 * acc + (r - 48)) else None)"

definition Atoi :: "rune list \<Rightarrow> error + int" where
  "Atoi rs =
     (let (neg, ds) = (case rs of [] \<Rightarrow> (False, [])
                       | r # rest \<Rightarrow> if r = 45 then (True, rest)
                                     else if r = 43 then (False, rest) else (False, rs)) in
      if ds = [] then Inl AtoiError
      else case digitsVal ds 0 of None \<Rightarrow> Inl AtoiError
           | Some v \<Rightarrow> Inr (if neg then - v else v))"

text \<open>
  \<open>strings.SplitN(s, sep, 2)\<close> with the two-byte separator backslash, newline: the
  parts before and after the first occurrence, or the whole string alone.
\<close>

fun SplitN2 :: "byte list \<Rightarrow> byte list \<Rightarrow> byte list list" where
  "SplitN2 acc (a # b # rest) =
     (if a = 0x5C \<and> b = 0x0A then [acc, rest] else SplitN2 (acc @ [a]) (b # rest))"
| "SplitN2 acc rest = [acc @ rest]"

text \<open>
  \<open>strconv.FormatInt(n, 2)\<close>, \<open>strconv.ParseUint(s, 2, 8)\<close> and the verb \<open>%08b\<close> of a
  byte. A bit string is a Go string of the characters \<open>0\<close> (byte 48) and \<open>1\<close> (byte 49).
\<close>

function binDigits :: "int \<Rightarrow> byte list" where
  "binDigits n =
     (if n < 2 then [of_int (48 + n)] else binDigits (n div 2) @ [of_int (48 + n mod 2)])"
  by pat_completeness auto
termination
  by (relation "measure nat") auto

declare binDigits.simps [simp del]

definition FormatInt2 :: "int \<Rightarrow> byte list" where
  "FormatInt2 n = (if n < 0 then 45 # binDigits (- n) else binDigits n)"

fun binVal :: "byte list \<Rightarrow> int \<Rightarrow> int option" where
  "binVal [] acc = Some acc"
| "binVal (c # cs) acc =
     (if c = 48 then binVal cs (2 * acc) else if c = 49 then binVal cs (2 * acc + 1) else None)"

definition ParseUint2_8 :: "byte list \<Rightarrow> error + byte" where
  "ParseUint2_8 s =
     (if s = [] then Inl Panic
      else case binVal s 0 of None \<Rightarrow> Inl Panic
           | Some v \<Rightarrow> if v < 256 then Inr (of_int v) else Inl Panic)"

primrec fmt_bits :: "nat \<Rightarrow> int \<Rightarrow> byte list" where
  "fmt_bits 0 v = []"
| "fmt_bits (Suc n) v = fmt_bits n (v div 2) @ [of_int (48 + v mod 2)]"

definition fmt08b :: "byte \<Rightarrow> byte list" where
  "fmt08b b = fmt_bits 8 (uint b)"

section \<open>huffman/utils.go: bit reversal\<close>

text \<open>
  \<open>Reverse(n, length)\<close>: the loop \<open>for length > 0\<close> moves the lowest bit of \<open>n\<close>
  to the bottom of \<open>out\<close>, shifts \<open>n\<close> right and counts \<open>length\<close> down.
\<close>

fun Reverse_loop :: "u32 \<Rightarrow> u32 \<Rightarrow> nat \<Rightarrow> u32" where
  "Reverse_loop n out 0 = out"
| "Reverse_loop n out (Suc l) =
     Reverse_loop (drop_bit 1 n) (push_bit 1 out OR (n AND 1)) l"

definition Reverse :: "u32 \<Rightarrow> u32 \<Rightarrow> u32" where
  "Reverse n len = Reverse_loop n 0 (unat len)"

section \<open>lzss/compression.go: the longest-match search\<close>

record Reference =
  Value :: "rune list"
  IsRef :: bool
  NegativeOffset :: int
  Size :: int

partial_function (option) fallback ::
  "int list \<Rightarrow> rune list \<Rightarrow> rune \<Rightarrow> int \<Rightarrow> (error + int) option" where
  "fallback pi pattern c k =
     (if k > 0 then
        (if k < int (length pattern) then
           (if c \<noteq> pattern ! nat k then
              (if k - 1 < int (length pi) then fallback pi pattern c (pi ! nat (k - 1))
               else Some (Inl Panic))
            else Some (Inr k))
         else Some (Inl Panic))
      else Some (Inr k))"

declare fallback.simps [code]

definition fallback_result :: "int list \<Rightarrow> rune list \<Rightarrow> rune \<Rightarrow> int \<Rightarrow> error + int" where
  "fallback_result pi pattern c k =
     (case fallback pi pattern c k of None \<Rightarrow> Inl Diverged | Some r \<Rightarrow> r)"

definition prefix_step :: "rune list \<Rightarrow> int list \<Rightarrow> nat \<Rightarrow> error + int list" where
  "prefix_step pattern pi i =
     andThen (at pi (int i - 1)) (\<lambda>j0.
     andThen (fallback_result pi pattern (pattern ! i) j0) (\<lambda>j.
     andThen (at pattern j) (\<lambda>p.
       Inr (pi[i := (if pattern ! i = p then j + 1 else j)]))))"

fun findPrefix_loop :: "rune list \<Rightarrow> nat list \<Rightarrow> int list \<Rightarrow> error + int list" where
  "findPrefix_loop pattern [] pi = Inr pi"
| "findPrefix_loop pattern (i # is) pi =
     andThen (prefix_step pattern pi i) (findPrefix_loop pattern is)"

definition findPrefix :: "rune list \<Rightarrow> error + int list" where
  "findPrefix pattern =
     findPrefix_loop pattern [1 ..< length pattern] (replicate (length pattern) 0)"

fun kmp_loop ::
  "int list \<Rightarrow> rune list \<Rightarrow> rune list \<Rightarrow> int \<Rightarrow> int \<Rightarrow> int \<Rightarrow> int \<Rightarrow> error + (int \<times> int)" where
  "kmp_loop pi pattern [] i best k bestIndex = Inr (best, bestIndex)"
| "kmp_loop pi pattern (b # bs) i best k bestIndex =
     andThen (fallback_result pi pattern b k) (\<lambda>k1.
     andThen (at pattern k1) (\<lambda>p.
       (let k2 = (if b = p then k1 + 1 else k1) in
        if best < k2 then
          (if k2 = int (length pattern) then Inr (k2, i - k2 + 1)
           else kmp_loop pi pattern bs (i + 1) k2 k2 (i - k2 + 1))
        else kmp_loop pi pattern bs (i + 1) best k2 bestIndex)))"

definition kmp :: "rune list \<Rightarrow> rune list \<Rightarrow> error + (int \<times> int)" where
  "kmp searchBuffer pattern =
     andThen (findPrefix pattern) (\<lambda>pi. kmp_loop pi pattern searchBuffer 0 0 0 0)"

definition matchSearchBuffer :: "rune list \<Rightarrow> rune list \<Rightarrow> rune list \<Rightarrow> error + Reference" where
  "matchSearchBuffer searchBuffer scanRunes nextRunes =
     (let pattern = scanRunes @ nextRunes in
      andThen (kmp searchBuffer pattern) (\<lambda>(matchedLength, matchedAt).
        if matchedLength > 1 then
          andThen (slice pattern 0 matchedLength) (\<lambda>v.
            Inr \<lparr>Value = v, IsRef = True,
                 NegativeOffset = int (length searchBuffer) - matchedAt,
                 Size = matchedLength\<rparr>)
        else Inr \<lparr>Value = scanRunes, IsRef = False, NegativeOffset = 0,
                  Size = int (length scanRunes)\<rparr>))"

definition matchAt :: "rune list \<Rightarrow> int \<Rightarrow> int \<Rightarrow> nat \<Rightarrow> error + Reference" where
  "matchAt content matchDistance matchLength i =
     (let searchStartIdx = max 0 (int i - matchDistance);
          nextEndIdx = min (int (length content)) (int i + matchLength) in
      andThen (slice content searchStartIdx (int i)) (\<lambda>searchBuffer.
      andThen (slice content (int i + 1) nextEndIdx) (\<lambda>nextRunes.
        matchSearchBuffer searchBuffer [content ! i] nextRunes)))"

fun collect :: "('a \<Rightarrow> error + 'b) \<Rightarrow> 'a list \<Rightarrow> error + 'b list" where
  "collect f [] = Inr []"
| "collect f (x # xs) =
     andThen (f x) (\<lambda>y. andThen (collect f xs) (\<lambda>ys. Inr (y # ys)))"

definition FindMatch :: "rune list \<Rightarrow> int \<Rightarrow> int \<Rightarrow> error + Reference list" where
  "FindMatch content matchDistance matchLength =
     collect (matchAt content matchDistance matchLength) [0 ..< length content]"

section \<open>flate: the bit buffer\<close>

text \<open>
  \<open>bitsCount\<close> is a Go \<open>uint\<close>; it never exceeds 32 in this program, and is modelled
  as a natural number. The compressor's state is the bit buffer together with the bytes
  written to the output buffer so far; writing to a \<open>bytes.Buffer\<close> does not fail.
\<close>

record bitBuffer =
  bitsHolder :: u32
  bitsCount :: nat

type_synonym writer = "bitBuffer \<times> byte list"

function emit_bytes :: "writer \<Rightarrow> writer" where
  "emit_bytes (bb, out) =
     (if bitsCount bb \<ge> 8 then
        emit_bytes (\<lparr>bitsHolder = drop_bit 8 (bitsHolder bb), bitsCount = bitsCount bb - 8\<rparr>,
                    out @ [ucast (bitsHolder bb AND 0xFF)])
      else (bb, out))"
  by pat_completeness auto
termination
  by (relation "measure (\<lambda>(bb, out). bitsCount bb)") auto

declare emit_bytes.simps [simp del]

lemma emit_bytes_count: "bitsCount (fst (emit_bytes w)) < 8"
proof (induction w rule: emit_bytes.induct)
  case (1 bb out)
  then show ?case by (subst emit_bytes.simps) auto
qed

function writeCompressedContent :: "writer \<Rightarrow> u32 \<Rightarrow> nat \<Rightarrow> writer" where
  "writeCompressedContent (bb, out) val nbits =
     (if nbits = 0 then (bb, out)
      else
        (let trimbits = min nbits (32 - bitsCount bb);
             bb1 = \<lparr>bitsHolder = bitsHolder bb
                       OR push_bit (bitsCount bb) (val AND (push_bit trimbits 1 - 1)),
                    bitsCount = bitsCount bb + trimbits\<rparr> in
         writeCompressedContent (emit_bytes (bb1, out)) (drop_bit trimbits val)
           (nbits - trimbits)))"
  by pat_completeness auto
termination
proof (relation "measures [\<lambda>(w, val, nbits). nbits, \<lambda>(w, val, nbits). bitsCount (fst w)]",
    goal_cases)
  case 1
  then show ?case by simp
next
  case (2 bb out val nbits trimbits bb1)
  have "bitsCount (fst (emit_bytes (bb1, out))) < 8" by (rule emit_bytes_count)
  with 2 show ?case by (auto simp: min_def split: if_splits)
qed

declare writeCompressedContent.simps [simp del]

definition flushAlign :: "writer \<Rightarrow> error + writer" where
  "flushAlign w =
     (if bitsCount (fst w) > 8 then Inl BitsNotWritten
      else if bitsCount (fst w) > 0 then Inr (writeCompressedContent w 0 (8 - bitsCount (fst w)))
      else Inr w)"

text \<open>
  The decompressor's state is the bit buffer and the bytes of the input buffer not yet
  read. \<open>readCompressedContent\<close> fills the holder byte by byte until it has \<open>nbits\<close>
  bits. A function that reads returns its value with the new state, or its error with the
  state the failed call leaves behind.
\<close>

type_synonym reader = "bitBuffer \<times> byte list"
type_synonym 'a reading = "(error \<times> reader) + ('a \<times> reader)"

fun fill_bits :: "bitBuffer \<Rightarrow> byte list \<Rightarrow> nat \<Rightarrow> unit reading" where
  "fill_bits bb [] nbits =
     (if bitsCount bb < nbits then Inl (NotEnoughBits, (bb, [])) else Inr ((), (bb, [])))"
| "fill_bits bb (newData # input) nbits =
     (if bitsCount bb < nbits then
        fill_bits \<lparr>bitsHolder = bitsHolder bb OR push_bit (bitsCount bb) (ucast newData),
                    bitsCount = bitsCount bb + 8\<rparr> input nbits
      else Inr ((), (bb, newData # input)))"

definition readCompressedContent :: "reader \<Rightarrow> nat \<Rightarrow> u32 reading" where
  "readCompressedContent r nbits =
     (if nbits > 32 then Inl (TooManyBits, r)
      else andThen (fill_bits (fst r) (snd r) nbits) (\<lambda>(u, bb, input).
        Inr (bitsHolder bb AND (push_bit nbits 1 - 1),
             (\<lparr>bitsHolder = drop_bit nbits (bitsHolder bb),
               bitsCount = bitsCount bb - nbits\<rparr>, input))))"

text \<open>An error of a function that does not read, at the reader state \<open>r\<close>.\<close>

definition at_state :: "reader \<Rightarrow> error + 'a \<Rightarrow> (error \<times> reader) + 'a" where
  "at_state r m = (case m of Inl e \<Rightarrow> Inl (e, r) | Inr x \<Rightarrow> Inr x)"

section \<open>huffman: the frequency tree\<close>

datatype huffmanTree =
    huffmanLeaf int int rune
  | huffmanNode int int huffmanTree huffmanTree

text \<open>The fields of a leaf are \<open>freq, id, symbol\<close>, of a node \<open>freq, id, left, right\<close>.\<close>

fun getFrequency :: "huffmanTree \<Rightarrow> int" where
  "getFrequency (huffmanLeaf f i s) = f"
| "getFrequency (huffmanNode f i l r) = f"

fun getId :: "huffmanTree \<Rightarrow> int" where
  "getId (huffmanLeaf f i s) = i"
| "getId (huffmanNode f i l r) = i"

definition Less :: "huffmanTree \<Rightarrow> huffmanTree \<Rightarrow> bool" where
  "Less a b =
     (if getFrequency a \<noteq> getFrequency b then getFrequency a < getFrequency b
      else getId a < getId b)"

text \<open>
  \<open>container/heap\<close> keeps the trees in an array ordered as a binary heap. The program
  only pushes, pops and asks for the length, and the ids are distinct, so \<open>Less\<close> is a
  strict total order on the trees in the heap and \<open>heap.Pop\<close> returns the one least
  element: the heap is modelled as the list of its elements. \<open>heap.Pop\<close> on an empty
  heap indexes the empty slice and panics.
\<close>

fun least :: "huffmanTree \<Rightarrow> huffmanTree list \<Rightarrow> huffmanTree" where
  "least m [] = m"
| "least m (t # ts) = least (if Less t m then t else m) ts"

definition heap_Pop :: "huffmanTree list \<Rightarrow> error + (huffmanTree \<times> huffmanTree list)" where
  "heap_Pop hub =
     (case hub of [] \<Rightarrow> Inl Panic
      | t # ts \<Rightarrow> Inr (least t ts, remove1 (least t ts) hub))"

definition heap_Push :: "huffmanTree list \<Rightarrow> huffmanTree \<Rightarrow> huffmanTree list" where
  "heap_Push hub t = hub @ [t]"

text \<open>
  A Go map \<open>map[rune]int\<close> is the list of its entries, with distinct keys. The order in
  which \<open>range\<close> visits the entries is not fixed by the language; where the program
  depends on it, the order is a parameter.
\<close>

type_synonym freq_map = "(rune \<times> int) list"

fun incr :: "rune \<Rightarrow> freq_map \<Rightarrow> freq_map" where
  "incr c [] = [(c, 1)]"
| "incr c ((k, v) # m) = (if k = c then (k, v + 1) # m else (k, v) # incr c m)"

fun assign :: "rune \<Rightarrow> int \<Rightarrow> freq_map \<Rightarrow> freq_map" where
  "assign c f [] = [(c, f)]"
| "assign c f ((k, v) # m) = (if k = c then (k, f) # m else (k, v) # assign c f m)"

definition lookup0 :: "freq_map \<Rightarrow> rune \<Rightarrow> int" where
  "lookup0 m k = (case map_of m k of None \<Rightarrow> 0 | Some v \<Rightarrow> v)"

fun leaves :: "freq_map \<Rightarrow> rune list \<Rightarrow> int \<Rightarrow> huffmanTree list" where
  "leaves m [] monoId = []"
| "leaves m (key # keys) monoId =
     huffmanLeaf (lookup0 m key) monoId key # leaves m keys (monoId + 1)"

lemma least_in: "least m ts \<in> set (m # ts)"
  by (induction ts arbitrary: m) auto

lemma heap_Pop_length:
  assumes "heap_Pop hub = Inr (x, hub')"
  shows "Suc (length hub') = length hub"
proof (cases hub)
  case Nil
  with assms show ?thesis by (simp add: heap_Pop_def)
next
  case (Cons a list)
  with assms have "hub' = remove1 (least a list) hub" by (auto simp: heap_Pop_def)
  moreover have "least a list \<in> set hub" using least_in [of a list] Cons by simp
  ultimately have "length hub' = length hub - 1" by (simp add: length_remove1)
  then show ?thesis using Cons by simp
qed

function buildTree_loop :: "huffmanTree list \<Rightarrow> int \<Rightarrow> error + huffmanTree list" where
  "buildTree_loop treehub monoId =
     (if length treehub > 1 then
        andThen (heap_Pop treehub) (\<lambda>(x, hub1).
        andThen (heap_Pop hub1) (\<lambda>(y, hub2).
          buildTree_loop
            (heap_Push hub2 (huffmanNode (getFrequency x + getFrequency y) monoId x y))
            (monoId + 1)))
      else Inr treehub)"
  by pat_completeness auto
termination
proof (relation "measure (\<lambda>(treehub, monoId). length treehub)", goal_cases)
  case 1
  then show ?case by simp
next
  case (2 treehub monoId p x hub1 q y hub2)
  then have "Suc (length hub1) = length treehub" "Suc (length hub2) = length hub1"
    by (auto dest: heap_Pop_length)
  then show ?case by (simp add: heap_Push_def)
qed

declare buildTree_loop.simps [simp del]

definition buildTree :: "freq_map \<Rightarrow> error + huffmanTree" where
  "buildTree symbolFreq =
     (let keys = sort (map fst symbolFreq);
          treehub = leaves symbolFreq keys 0 in
      andThen (buildTree_loop treehub (int (length keys))) (\<lambda>hub.
      andThen (heap_Pop hub) (\<lambda>(t, rest). Inr t)))"

section \<open>huffman: compression\<close>

text \<open>
  In \<open>ParseUint2_8\<close> above the error of \<open>strconv.ParseUint\<close> is already the
  \<open>os.Exit(1)\<close> that \<open>asByteSlice\<close> answers it with. \<open>asByteSlice\<close> cuts the bit string
  into chunks of eight characters from its end; the first chunk of the string is the short
  one.
\<close>

function asByteSlice_loop :: "byte list \<Rightarrow> int \<Rightarrow> byte list \<Rightarrow> error + byte list" where
  "asByteSlice_loop b i output =
     (if i > 0 then
        andThen (if i < 8 then slice b 0 i else slice b (i - 8) i) (\<lambda>chunk.
        andThen (ParseUint2_8 chunk) (\<lambda>chunkInt.
          asByteSlice_loop b (i - 8) (output @ [chunkInt])))
      else Inr output)"
  by pat_completeness auto
termination
  by (relation "measure (\<lambda>(b, i, output). nat i)") auto

declare asByteSlice_loop.simps [simp del]

definition asByteSlice :: "byte list \<Rightarrow> error + byte list" where
  "asByteSlice b = andThen (asByteSlice_loop b (int (length b)) []) (\<lambda>output. Inr (rev output))"

type_synonym enc_map = "(rune \<times> byte list) list"

fun store :: "'k \<Rightarrow> 'v \<Rightarrow> ('k \<times> 'v) list \<Rightarrow> ('k \<times> 'v) list" where
  "store c f [] = [(c, f)]"
| "store c f ((k, v) # m) = (if k = c then (k, f) # m else (k, v) # store c f m)"

fun getSymbolEncoding :: "huffmanTree \<Rightarrow> enc_map \<Rightarrow> byte list \<Rightarrow> enc_map" where
  "getSymbolEncoding (huffmanLeaf f i symbol) symbolEnc currentPrefix =
     store symbol currentPrefix symbolEnc"
| "getSymbolEncoding (huffmanNode f i left right) symbolEnc currentPrefix =
     getSymbolEncoding right
       (getSymbolEncoding left symbolEnc (currentPrefix @ [48])) (currentPrefix @ [49])"

fun encode_symbols :: "enc_map \<Rightarrow> rune list \<Rightarrow> byte list \<Rightarrow> error + byte list" where
  "encode_symbols symbolEnc [] output = Inr output"
| "encode_symbols symbolEnc (symbol # rest) output =
     (case map_of symbolEnc symbol of
        None \<Rightarrow> Inl Panic
      | Some encoding \<Rightarrow> encode_symbols symbolEnc rest (output @ encoding))"

definition encode :: "huffmanTree \<Rightarrow> byte list \<Rightarrow> byte list \<Rightarrow> error + byte list" where
  "encode tree input compressionHeader =
     (let symbolEnc = getSymbolEncoding tree [] [] in
      andThen (encode_symbols symbolEnc (utf8_decode input) []) (\<lambda>output.
      andThen (asByteSlice (FormatInt2 ((8 - int (length output) mod 8) mod 8)))
        (\<lambda>paddingByte.
      andThen (asByteSlice output) (\<lambda>inputBytes.
        Inr (compressionHeader @ [0x5C, 0x0A] @ paddingByte @ inputBytes)))))"

definition header_entry :: "rune \<times> int \<Rightarrow> byte list" where
  "header_entry e =
     (case e of (key, val) \<Rightarrow>
        if key = 10 then Itoa val @ [0x7C, 0x5C, 0x6E]
        else Itoa val @ [0x7C] @ utf8_encode_rune key)"

text \<open>
  \<open>compress\<close>: \<open>order\<close> is the order in which \<open>range symbolFreq\<close> visits the entries
  of the map when the header is written.
\<close>

definition compress :: "(freq_map \<Rightarrow> freq_map) \<Rightarrow> byte list \<Rightarrow> error + byte list" where
  "compress order content =
     (let symbolFreq = foldl (\<lambda>m c. incr c m) [] (utf8_decode content);
          compressionHeader = concat (map header_entry (order symbolFreq)) in
      andThen (buildTree symbolFreq) (\<lambda>tree. encode tree content compressionHeader))"

section \<open>huffman: decompression\<close>

text \<open>
  \<open>getSymbol\<close> and the loop of \<open>getSymbolDecoded\<close> walk the bit string by an index; here
  they take the bits from the index on and return the bits that remain. The error of
  \<open>getSymbol\<close> is the panic its caller turns it into.
\<close>

fun getSymbol :: "huffmanTree \<Rightarrow> byte list \<Rightarrow> error + (rune \<times> byte list)" where
  "getSymbol (huffmanLeaf f i symbol) rest = Inr (symbol, rest)"
| "getSymbol (huffmanNode f i left right) [] = Inl Panic"
| "getSymbol (huffmanNode f i left right) (c # rest) =
     getSymbol (if c = 48 then left else right) rest"

lemma getSymbol_length:
  "getSymbol t bits = Inr (s, rest) \<Longrightarrow> length rest \<le> length bits"
  by (induction t bits rule: getSymbol.induct) (auto split: if_splits)

function getSymbolDecoded_loop ::
  "huffmanTree \<Rightarrow> huffmanTree \<Rightarrow> byte list \<Rightarrow> rune list \<Rightarrow> error + rune list" where
  "getSymbolDecoded_loop left right [] data = Inr data"
| "getSymbolDecoded_loop left right (c # rest) data =
     andThen (getSymbol (if c = 48 then left else right) rest) (\<lambda>(symbol, rest').
       getSymbolDecoded_loop left right rest' (data @ [symbol]))"
  by pat_completeness auto
termination
  by (relation "measure (\<lambda>(left, right, bits, data). length bits)")
    (auto dest: getSymbol_length)

fun getSymbolDecoded :: "huffmanTree \<Rightarrow> byte list \<Rightarrow> error + rune list" where
  "getSymbolDecoded (huffmanLeaf f i symbol) huffmanCode = Inr [symbol]"
| "getSymbolDecoded (huffmanNode f i left right) huffmanCode =
     getSymbolDecoded_loop left right huffmanCode []"

text \<open>
  \<open>decode_bits\<close> is the part of \<open>decode\<close> that turns the bytes after the terminator
  into the bit string \<open>huffmanCode\<close>: the first byte is the offset, the others are written
  with \<open>%08b\<close>, and the offset is cut from the front.
\<close>

definition decode_bits :: "byte list \<Rightarrow> error + byte list" where
  "decode_bits contentBytes =
     (case contentBytes of
        [] \<Rightarrow> Inr []
      | bait # rest \<Rightarrow>
          (let code = concat (map fmt08b rest) in
           slice code (uint bait) (int (length code))))"

definition decode :: "huffmanTree \<Rightarrow> byte list \<Rightarrow> error + byte list" where
  "decode tree input =
     andThen (at (SplitN2 [] input) 1) (\<lambda>contentString.
     andThen (decode_bits contentString) (\<lambda>huffmanCode.
     andThen (getSymbolDecoded tree huffmanCode) (\<lambda>data. Inr (utf8_encode data))))"

fun startFreq_loop :: "(rune \<Rightarrow> bool) \<Rightarrow> rune list \<Rightarrow> nat \<Rightarrow> nat" where
  "startFreq_loop IsDigit headerRunes 0 = 0"
| "startFreq_loop IsDigit headerRunes (Suc n) =
     (if IsDigit (headerRunes ! n) \<and> (Suc n = 1 \<or> headerRunes ! (n - 1) \<noteq> 0x7C)
      then startFreq_loop IsDigit headerRunes n else Suc n)"

definition header_step ::
  "(rune \<Rightarrow> bool) \<Rightarrow> rune list \<Rightarrow> freq_map \<Rightarrow> nat \<Rightarrow> error + freq_map" where
  "header_step IsDigit headerRunes symbolFreq i =
     (if headerRunes ! i = 0x7C then
        andThen (at headerRunes (int i - 1)) (\<lambda>prev.
          if prev \<noteq> 0x7C then
            (let endFreq = i; startFreq = startFreq_loop IsDigit headerRunes (endFreq - 1) in
             andThen (case Atoi (take (endFreq - startFreq) (drop startFreq headerRunes)) of
                        Inl e \<Rightarrow> Inl Panic | Inr freq \<Rightarrow> Inr freq) (\<lambda>freq.
             andThen (at headerRunes (int i + 1)) (\<lambda>next.
               if next \<noteq> 0x5C \<or> i + 2 \<ge> length headerRunes \<or> headerRunes ! (i + 2) \<noteq> 0x6E
               then Inr (assign next freq symbolFreq)
               else Inr (assign 10 freq symbolFreq))))
          else Inr symbolFreq)
      else Inr symbolFreq)"

text \<open>
  \<open>decompress\<close>: \<open>IsDigit\<close> is \<open>unicode.IsDigit\<close> of Go's library, the decimal digits
  of Unicode.
\<close>

definition decompress :: "(rune \<Rightarrow> bool) \<Rightarrow> byte list \<Rightarrow> error + byte list" where
  "decompress IsDigit content =
     (let compressionHeader = hd (SplitN2 [] content);
          headerRunes = utf8_decode compressionHeader in
      andThen (foldE (header_step IsDigit headerRunes) [0 ..< length headerRunes] [])
        (\<lambda>symbolFreq.
      andThen (buildTree symbolFreq) (\<lambda>tree. decode tree content)))"

section \<open>huffman: canonical encoder and decoder\<close>

text \<open>
  The interface \<open>CanonicalHuffman\<close> has two implementations; a \<open>nil\<close> interface value
  is \<open>None\<close>. A method call on \<open>nil\<close> panics.
\<close>

datatype CanonicalHuffman =
    CanonicalHuffmanCode int int
  | CanonicalHuffmanDecode int int

text \<open>The fields are \<open>Code, Length\<close> and \<open>Symbol, Length\<close>.\<close>

fun GetValue :: "CanonicalHuffman \<Rightarrow> int" where
  "GetValue (CanonicalHuffmanCode code len) = code"
| "GetValue (CanonicalHuffmanDecode symbol len) = symbol"

fun GetLength :: "CanonicalHuffman \<Rightarrow> int" where
  "GetLength (CanonicalHuffmanCode code len) = len"
| "GetLength (CanonicalHuffmanDecode symbol len) = len"

fun dfs :: "huffmanTree \<Rightarrow> int \<Rightarrow> int list \<Rightarrow> int list" where
  "dfs (huffmanLeaf f i symbol) len lengths = lengths[nat symbol := len]"
| "dfs (huffmanNode f i left right) len lengths =
     dfs right (len + 1) (dfs left (len + 1) lengths)"

text \<open>
  \<open>sort.Slice\<close> with the comparison of the source. The keys \<open>(length, symbol)\<close> are
  distinct, so the sorted order does not depend on the sorting algorithm.
\<close>

definition order_less :: "int \<times> int \<Rightarrow> int \<times> int \<Rightarrow> bool" where
  "order_less a b =
     (case a of (symbol_a, length_a) \<Rightarrow> case b of (symbol_b, length_b) \<Rightarrow>
        if length_a = length_b then symbol_a < symbol_b else length_a < length_b)"

fun insert_sorted :: "int \<times> int \<Rightarrow> (int \<times> int) list \<Rightarrow> (int \<times> int) list" where
  "insert_sorted a [] = [a]"
| "insert_sorted a (b # bs) = (if order_less a b then a # b # bs else b # insert_sorted a bs)"

definition sort_Slice :: "(int \<times> int) list \<Rightarrow> (int \<times> int) list" where
  "sort_Slice xs = foldr insert_sorted xs []"

text \<open>
  The part shared by the two builders: the symbols with a non-zero length in sorted
  order, and the first code of every length.
\<close>

definition max_length :: "int list \<Rightarrow> int" where
  "max_length lengths = foldl max 0 lengths"

definition symbol_order :: "int list \<Rightarrow> (int \<times> int) list" where
  "symbol_order lengths =
     sort_Slice (filter (\<lambda>(symbol, len). len \<noteq> 0)
                   (zip (map int [0 ..< length lengths]) lengths))"

definition length_counts :: "int list \<Rightarrow> int list" where
  "length_counts lengths =
     foldl (\<lambda>counts len. if len = 0 then counts else counts[nat len := counts ! nat len + 1])
       (replicate (nat (max_length lengths + 1)) 0) lengths"

fun base_codes :: "int list \<Rightarrow> nat list \<Rightarrow> int \<Rightarrow> int list \<Rightarrow> int list" where
  "base_codes lengthCounts [] code nextBaseCode = nextBaseCode"
| "base_codes lengthCounts (i # is) code nextBaseCode =
     (let code' = (code + lengthCounts ! (i - 1)) * 2 in
      base_codes lengthCounts is code' (nextBaseCode[i := code']))"

definition next_base_code :: "int list \<Rightarrow> int list" where
  "next_base_code lengths =
     (let lengthCounts = length_counts lengths in
      base_codes lengthCounts [1 ..< length lengthCounts] 0
        (replicate (length lengthCounts) 0))"

fun assign_codes ::
  "(int \<times> int) list \<Rightarrow> int list \<Rightarrow> CanonicalHuffman option list
     \<Rightarrow> CanonicalHuffman option list" where
  "assign_codes [] nextBaseCode output = output"
| "assign_codes ((symbol, len) # order) nextBaseCode output =
     assign_codes order (nextBaseCode[nat len := nextBaseCode ! nat len + 1])
       (output[nat symbol := Some (CanonicalHuffmanCode (nextBaseCode ! nat len) len)])"

definition BuildCanonicalHuffmanEncoder ::
  "int list \<Rightarrow> int \<Rightarrow> error + CanonicalHuffman option list" where
  "BuildCanonicalHuffmanEncoder symbolFreq lengthLimit =
     (let symbolFreqMap = filter (\<lambda>(symbol, freq). freq > 0)
                            (zip (map int [0 ..< length symbolFreq]) symbolFreq) in
      andThen (buildTree symbolFreqMap) (\<lambda>root.
        (let lengths0 = replicate (length symbolFreq) 0;
             lengths = (case root of
                          huffmanLeaf f i symbol \<Rightarrow> lengths0[nat symbol := 1]
                        | huffmanNode f i left right \<Rightarrow> dfs root 0 lengths0) in
         if max_length lengths > lengthLimit then Inl TreeTooLong
         else Inr (assign_codes (symbol_order lengths) (next_base_code lengths)
                     (replicate (length symbolFreq) None)))))"

text \<open>
  The decoder tree. A pointer to a node is \<open>Some\<close> node, \<open>nil\<close> is \<open>None\<close>;
  \<open>buildCanonicalHuffmanTree\<close> returns the node it was given, updated. Its explicit
  \<open>panic\<close> is the error \<open>Panic\<close>.
\<close>

datatype CanonicalHuffmanNode =
  CNode (Item: "CanonicalHuffman option") (IsLeaf: bool)
        (Left: "CanonicalHuffmanNode option") (Right: "CanonicalHuffmanNode option")

definition empty_node :: CanonicalHuffmanNode where
  "empty_node = CNode None False None None"

fun buildCanonicalHuffmanTree ::
  "CanonicalHuffmanNode \<Rightarrow> nat \<Rightarrow> CanonicalHuffman \<Rightarrow> u32 \<Rightarrow> error + CanonicalHuffmanNode" where
  "buildCanonicalHuffmanTree node 0 item code =
     Inr (CNode (Some item) True (Left node) (Right node))"
| "buildCanonicalHuffmanTree node (Suc lengthRemaining) item code =
     (if IsLeaf node then Inl Panic
      else if code AND 1 = 0 then
        andThen (buildCanonicalHuffmanTree
                   (case Left node of None \<Rightarrow> empty_node | Some l \<Rightarrow> l)
                   lengthRemaining item (drop_bit 1 code)) (\<lambda>l.
          Inr (CNode (Item node) (IsLeaf node) (Some l) (Right node)))
      else
        andThen (buildCanonicalHuffmanTree
                   (case Right node of None \<Rightarrow> empty_node | Some r \<Rightarrow> r)
                   lengthRemaining item (drop_bit 1 code)) (\<lambda>r.
          Inr (CNode (Item node) (IsLeaf node) (Left node) (Some r))))"

fun insert_codes ::
  "(int \<times> int) list \<Rightarrow> int list \<Rightarrow> CanonicalHuffmanNode \<Rightarrow> error + CanonicalHuffmanNode" where
  "insert_codes [] nextBaseCode root = Inr root"
| "insert_codes ((symbol, len) # order) nextBaseCode root =
     andThen (buildCanonicalHuffmanTree root (nat len) (CanonicalHuffmanDecode symbol len)
                (Reverse (of_int (nextBaseCode ! nat len)) (of_int len))) (\<lambda>root'.
       insert_codes order (nextBaseCode[nat len := nextBaseCode ! nat len + 1]) root')"

definition BuildCanonicalHuffmanDecoder :: "int list \<Rightarrow> error + CanonicalHuffmanNode" where
  "BuildCanonicalHuffmanDecoder lengths =
     insert_codes (symbol_order lengths) (next_base_code lengths) empty_node"

section \<open>flate: tokens and the tokeniser\<close>

datatype TokenKind = LiteralToken | MatchToken | EndOfBlockToken

record Token =
  Kind :: TokenKind
  TValue :: byte
  Length :: int
  Distance :: int
  DistanceCode :: int
  DistanceOffset :: int
  LengthCode :: int
  LengthOffset :: int

definition maxAllowedBackwardDistance :: int where
  "maxAllowedBackwardDistance = 32768"

definition maxAllowedMatchLength :: int where
  "maxAllowedMatchLength = 258"

definition literal_token :: "byte \<Rightarrow> Token" where
  "literal_token b = \<lparr>Kind = LiteralToken, TValue = b, Length = 0, Distance = 0,
     DistanceCode = 0, DistanceOffset = 0, LengthCode = 0, LengthOffset = 0\<rparr>"

definition match_token :: "int \<Rightarrow> int \<Rightarrow> Token" where
  "match_token len dist = \<lparr>Kind = MatchToken, TValue = 0, Length = len, Distance = dist,
     DistanceCode = 0, DistanceOffset = 0, LengthCode = 0, LengthOffset = 0\<rparr>"

text \<open>
  \<open>tokeniseLZSS\<close> reads one reference per position, in input order. The loop state is
  the token slice and \<open>nextRunesToIgnore\<close>.
\<close>

fun tokeniseLZSS_loop :: "Reference list \<Rightarrow> int \<Rightarrow> Token list \<Rightarrow> error + Token list" where
  "tokeniseLZSS_loop [] nextRunesToIgnore tokens = Inr tokens"
| "tokeniseLZSS_loop (ref # refs) nextRunesToIgnore tokens =
     (if nextRunesToIgnore > 0 then tokeniseLZSS_loop refs (nextRunesToIgnore - 1) tokens
      else if \<not> IsRef ref \<or> Size ref < 3 then
        andThen (at (Value ref) 0) (\<lambda>r.
          tokeniseLZSS_loop refs nextRunesToIgnore
            (tokens @ map literal_token (utf8_encode_rune r)))
      else if Size ref > NegativeOffset ref then Inl TokenOverlap
      else if Size ref > maxAllowedMatchLength then Inl TokenTooLong
      else if NegativeOffset ref > maxAllowedBackwardDistance then Inl TokenTooFar
      else tokeniseLZSS_loop refs (Size ref - 1)
             (tokens @ [match_token (Size ref) (NegativeOffset ref)]))"

definition tokeniseLZSS :: "Reference list \<Rightarrow> error + Token list" where
  "tokeniseLZSS refs = tokeniseLZSS_loop refs 0 []"

section \<open>flate: run-length encoding of the code lengths\<close>

text \<open>
  An item of \<open>HuffmanLengthCondensed\<close> is the pair \<open>(RLECode, Offset)\<close>. The state of
  \<open>FindCode\<close> is \<open>(countZero, countSame, HuffmanLengthCondensed)\<close>; its two closures
  take and return that state.
\<close>

type_synonym rle_item = "int \<times> int"
type_synonym rle_state = "int \<times> int \<times> rle_item list"

definition resolveCountZero :: "rle_state \<Rightarrow> error + rle_state" where
  "resolveCountZero st =
     (case st of (countZero, countSame, out) \<Rightarrow>
        if countZero \<noteq> 0 then
          (if countZero < 3 then Inr (0, countSame, out @ replicate (nat countZero) (0, 0))
           else if countZero < 11 then Inr (0, countSame, out @ [(17, countZero - 3)])
           else if countZero < 138 then Inr (0, countSame, out @ [(18, countZero - 11)])
           else Inl ZerosTooLong)
        else Inr st)"

definition resolveCountSame :: "int list \<Rightarrow> int \<Rightarrow> rle_state \<Rightarrow> error + rle_state" where
  "resolveCountSame lengthHuffmanLengths prevIndex st =
     (case st of (countZero, countSame, out) \<Rightarrow>
        if countSame \<noteq> 0 then
          (if countSame < 3 then
             andThen (at lengthHuffmanLengths prevIndex) (\<lambda>v.
               Inr (countZero, 0, out @ replicate (nat countSame) (v, 0)))
           else if countSame < 6 then Inr (countZero, 0, out @ [(16, countSame - 3)])
           else Inl SameTooLong)
        else Inr st)"

definition FindCode_step :: "int list \<Rightarrow> rle_state \<Rightarrow> nat \<Rightarrow> error + rle_state" where
  "FindCode_step lengthHuffmanLengths st i =
     (let len = lengthHuffmanLengths ! i in
      if len = 0 then
        andThen (resolveCountSame lengthHuffmanLengths (int i - 1) st)
          (\<lambda>(countZero, countSame, out).
             if countZero + 1 = 138 then Inr (0, countSame, out @ [(18, countZero + 1 - 11)])
             else Inr (countZero + 1, countSame, out))
      else if i = 0 \<or> len \<noteq> lengthHuffmanLengths ! (i - 1) then
        andThen (resolveCountZero st) (\<lambda>st1.
        andThen (resolveCountSame lengthHuffmanLengths (int i - 1) st1)
          (\<lambda>(countZero, countSame, out). Inr (countZero, countSame, out @ [(len, 0)])))
      else
        (case st of (countZero, countSame, out) \<Rightarrow>
           if countSame + 1 = 6 then Inr (countZero, 0, out @ [(16, countSame + 1 - 3)])
           else Inr (countZero, countSame + 1, out)))"

definition FindCode :: "int list \<Rightarrow> error + rle_item list" where
  "FindCode lengthHuffmanLengths =
     andThen (foldE (FindCode_step lengthHuffmanLengths)
                [0 ..< length lengthHuffmanLengths] (0, 0, [])) (\<lambda>st.
     andThen (resolveCountZero st) (\<lambda>st1.
     andThen (resolveCountSame lengthHuffmanLengths
                (int (length lengthHuffmanLengths) - 1) st1)
       (\<lambda>(countZero, countSame, out). Inr out)))"

section \<open>flate: the alphabets of RFC 1951\<close>

text \<open>
  A \<open>Rulebook\<close> maps a code to its \<open>(ExtraBits, Base)\<close>; a code that is not a key of
  the Go map reads as the zero value \<open>(0, 0)\<close>.
\<close>

definition lenAlphabets :: "(int \<times> (int \<times> int)) list" where
  "lenAlphabets =
    [(257, (0, 3)), (258, (0, 4)), (259, (0, 5)), (260, (0, 6)), (261, (0, 7)),
     (262, (0, 8)), (263, (0, 9)), (264, (0, 10)), (265, (1, 11)), (266, (1, 13)),
     (267, (1, 15)), (268, (1, 17)), (269, (2, 19)), (270, (2, 23)), (271, (2, 27)),
     (272, (3, 31)), (273, (3, 35)), (274, (3, 43)), (275, (3, 51)), (276, (3, 59)),
     (277, (4, 67)), (278, (4, 83)), (279, (4, 99)), (280, (4, 115)), (281, (5, 131)),
     (282, (5, 163)), (283, (5, 195)), (284, (5, 227)), (285, (0, 258))]"

definition distAlphabets :: "(int \<times> (int \<times> int)) list" where
  "distAlphabets =
    [(0, (0, 1)), (1, (0, 2)), (2, (0, 3)), (3, (0, 4)), (4, (1, 5)), (5, (1, 7)),
     (6, (2, 9)), (7, (2, 13)), (8, (3, 17)), (9, (3, 25)), (10, (4, 33)), (11, (4, 49)),
     (12, (5, 65)), (13, (5, 97)), (14, (6, 129)), (15, (6, 193)), (16, (7, 257)),
     (17, (7, 385)), (18, (8, 513)), (19, (8, 769)), (20, (9, 1025)), (21, (9, 1537)),
     (22, (10, 2049)), (23, (10, 3073)), (24, (11, 4097)), (25, (11, 6145)),
     (26, (12, 8193)), (27, (12, 12289)), (28, (13, 16385)), (29, (13, 24577))]"

definition rleAlphabets :: "(int \<times> (int \<times> int)) list" where
  "rleAlphabets =
    [(16, (2, 3)), (17, (3, 3)), (18, (7, 11)), (0, (0, 0)), (8, (0, 8)), (7, (0, 7)),
     (9, (0, 9)), (6, (0, 6)), (10, (0, 10)), (5, (0, 5)), (11, (0, 11)), (4, (0, 4)),
     (12, (0, 12)), (3, (0, 3)), (13, (0, 13)), (2, (0, 2)), (14, (0, 14)), (1, (0, 1)),
     (15, (0, 15))]"

definition rleKeyOrder :: "int list" where
  "rleKeyOrder = [16, 17, 18, 0, 8, 7, 9, 6, 10, 5, 11, 4, 12, 3, 13, 2, 14, 1, 15]"

definition ExtraBits :: "(int \<times> (int \<times> int)) list \<Rightarrow> int \<Rightarrow> int" where
  "ExtraBits book code = (case map_of book code of None \<Rightarrow> 0 | Some (e, b) \<Rightarrow> e)"

definition Base :: "(int \<times> (int \<times> int)) list \<Rightarrow> int \<Rightarrow> int" where
  "Base book code = (case map_of book code of None \<Rightarrow> 0 | Some (e, b) \<Rightarrow> b)"

section \<open>flate: code assignment and the three code books\<close>

text \<open>
  \<open>LitLengthCode.FindCode\<close> tries the keys in \<open>KeyOrder\<close>, which is the order of
  \<open>lenAlphabets\<close> here. \<open>DistanceCode.FindCode\<close> ranges over the Go map; its condition
  holds for one code only, so the order of the visit does not matter.
\<close>

fun find_in_book :: "(int \<times> (int \<times> int)) list \<Rightarrow> int list \<Rightarrow> int \<Rightarrow> (int \<times> int) option" where
  "find_in_book book [] v = None"
| "find_in_book book (key # keys) v =
     (if v \<ge> Base book key \<and> (map_of book (key + 1) = None \<or> v < Base book (key + 1))
      then Some (key, v - Base book key) else find_in_book book keys v)"

definition LitLength_FindCode :: "int \<Rightarrow> error + (int \<times> int)" where
  "LitLength_FindCode v =
     (if v < 3 \<or> v > maxAllowedMatchLength then Inl LengthOutOfRange
      else case find_in_book lenAlphabets (map fst lenAlphabets) v of
             None \<Rightarrow> Inl NoLengthCode | Some r \<Rightarrow> Inr r)"

definition Distance_FindCode :: "int \<Rightarrow> error + (int \<times> int)" where
  "Distance_FindCode v =
     (if v < 1 \<or> v > maxAllowedBackwardDistance then Inl DistanceOutOfRange
      else case find_in_book distAlphabets (map fst distAlphabets) v of
             None \<Rightarrow> Inl NoDistanceCode | Some r \<Rightarrow> Inr r)"

fun findLengthBoundary_loop ::
  "CanonicalHuffman option list \<Rightarrow> int \<Rightarrow> int \<Rightarrow> int \<Rightarrow> int list \<Rightarrow> int list
     \<Rightarrow> error + int list" where
  "findLengthBoundary_loop [] i threshold limit len zeros = Inr len"
| "findLengthBoundary_loop (info # items) i threshold limit len zeros =
     (if i \<le> threshold then
        findLengthBoundary_loop items (i + 1) threshold limit
          (len @ [case info of None \<Rightarrow> 0 | Some h \<Rightarrow> GetLength h]) zeros
      else if info = None \<or> GetLength (the info) = 0 then
        findLengthBoundary_loop items (i + 1) threshold limit len (zeros @ [0])
      else if GetLength (the info) > limit then Inl LengthTooLong
      else findLengthBoundary_loop items (i + 1) threshold limit
             (len @ zeros @ [GetLength (the info)]) [])"

definition findLengthBoundary ::
  "CanonicalHuffman option list \<Rightarrow> int \<Rightarrow> int \<Rightarrow> error + int list" where
  "findLengthBoundary items threshold limit =
     findLengthBoundary_loop items 0 threshold limit [] []"

definition bump :: "int list \<Rightarrow> int \<Rightarrow> error + int list" where
  "bump symbolFreq i =
     (if 0 \<le> i \<and> i < int (length symbolFreq)
      then Inr (symbolFreq[nat i := symbolFreq ! nat i + 1]) else Inl Panic)"

text \<open>
  \<open>LitLengthCode.Encode\<close> and \<open>DistanceCode.Encode\<close> write the codes they find into
  the tokens; they return the tokens, the code book and the code lengths.
\<close>

fun litlen_tokens :: "Token list \<Rightarrow> int list \<Rightarrow> Token list \<Rightarrow> error + (Token list \<times> int list)" where
  "litlen_tokens [] symbolFreq done = Inr (done, symbolFreq)"
| "litlen_tokens (token # tokens) symbolFreq done =
     (if Kind token = LiteralToken then
        andThen (bump symbolFreq (uint (TValue token))) (\<lambda>symbolFreq'.
          litlen_tokens tokens symbolFreq' (done @ [token]))
      else
        andThen (LitLength_FindCode (Length token)) (\<lambda>(code, offset).
        andThen (bump symbolFreq code) (\<lambda>symbolFreq'.
          litlen_tokens tokens symbolFreq'
            (done @ [token\<lparr>LengthCode := code, LengthOffset := offset\<rparr>]))))"

definition LitLength_Encode ::
  "Token list \<Rightarrow> error + (Token list \<times> CanonicalHuffman option list \<times> int list)" where
  "LitLength_Encode tokens =
     andThen (litlen_tokens tokens (replicate 286 0) []) (\<lambda>(tokens', symbolFreq).
     andThen (bump symbolFreq 256) (\<lambda>symbolFreq'.
     andThen (BuildCanonicalHuffmanEncoder symbolFreq' 15) (\<lambda>litLenHuffmanCode.
     andThen (findLengthBoundary litLenHuffmanCode 256 15) (\<lambda>lengths.
       Inr (tokens', litLenHuffmanCode, lengths)))))"

fun dist_tokens :: "Token list \<Rightarrow> int list \<Rightarrow> Token list \<Rightarrow> error + (Token list \<times> int list)" where
  "dist_tokens [] symbolFreq done = Inr (done, symbolFreq)"
| "dist_tokens (token # tokens) symbolFreq done =
     (if Kind token = MatchToken then
        andThen (Distance_FindCode (Distance token)) (\<lambda>(code, offset).
        andThen (bump symbolFreq code) (\<lambda>symbolFreq'.
          dist_tokens tokens symbolFreq'
            (done @ [token\<lparr>DistanceCode := code, DistanceOffset := offset\<rparr>])))
      else dist_tokens tokens symbolFreq (done @ [token]))"

definition Distance_Encode ::
  "Token list \<Rightarrow> error + (Token list \<times> CanonicalHuffman option list \<times> int list)" where
  "Distance_Encode tokens =
     andThen (dist_tokens tokens (replicate 30 0) []) (\<lambda>(tokens', symbolFreq).
     andThen (BuildCanonicalHuffmanEncoder symbolFreq 15) (\<lambda>distHuffmanCode.
     andThen (findLengthBoundary distHuffmanCode 0 15) (\<lambda>lengths.
       Inr (tokens', distHuffmanCode, lengths))))"

definition shuffle :: "CanonicalHuffman option list \<Rightarrow> error + CanonicalHuffman option list" where
  "shuffle code = collect (at code) rleKeyOrder"

text \<open>
  \<open>CodeLengthCode.Encode\<close> returns the condensed items, the code book
  \<open>CondensedHuffman\<close> and the code lengths in header order.
\<close>

definition CodeLength_Encode ::
  "int list \<Rightarrow> error + (rle_item list \<times> CanonicalHuffman option list \<times> int list)" where
  "CodeLength_Encode lengthHuffmanLengths =
     andThen (FindCode lengthHuffmanLengths) (\<lambda>condensed.
     andThen (foldE bump (map fst condensed) (replicate 19 0)) (\<lambda>symbolFreq.
     andThen (BuildCanonicalHuffmanEncoder symbolFreq 7) (\<lambda>codeLengthHuffmanCode.
     andThen (shuffle codeLengthHuffmanCode) (\<lambda>shuffled.
     andThen (findLengthBoundary shuffled 3 7) (\<lambda>lengths.
       Inr (condensed, codeLengthHuffmanCode, lengths))))))"

section \<open>flate: compression\<close>

definition write_code :: "CanonicalHuffman option list \<Rightarrow> int \<Rightarrow> writer \<Rightarrow> error + writer" where
  "write_code book symbol w =
     andThen (at book symbol) (\<lambda>entry.
       case entry of None \<Rightarrow> Inl Panic
       | Some huff \<Rightarrow>
           Inr (writeCompressedContent w
                  (Reverse (of_int (GetValue huff)) (of_int (GetLength huff)))
                  (nat (GetLength huff))))"

definition write_extra ::
  "(int \<times> (int \<times> int)) list \<Rightarrow> int \<Rightarrow> int \<Rightarrow> writer \<Rightarrow> writer" where
  "write_extra book code offset w =
     (if ExtraBits book code > 0
      then writeCompressedContent w (of_int offset) (nat (ExtraBits book code)) else w)"

definition write_condensed :: "CanonicalHuffman option list \<Rightarrow> writer \<Rightarrow> rle_item \<Rightarrow> error + writer" where
  "write_condensed CondensedHuffman w item =
     (case item of (RLECode, Offset) \<Rightarrow>
        andThen (write_code CondensedHuffman RLECode w) (\<lambda>w1.
          Inr (write_extra rleAlphabets RLECode Offset w1)))"

definition write_token ::
  "CanonicalHuffman option list \<Rightarrow> CanonicalHuffman option list \<Rightarrow> writer \<Rightarrow> Token
     \<Rightarrow> error + writer" where
  "write_token LitLengthHuffman DistanceHuffman w token =
     (if Kind token = LiteralToken then write_code LitLengthHuffman (uint (TValue token)) w
      else
        andThen (write_code LitLengthHuffman (LengthCode token) w) (\<lambda>w1.
        andThen (write_code DistanceHuffman (DistanceCode token)
                   (write_extra lenAlphabets (LengthCode token) (LengthOffset token) w1))
          (\<lambda>w2.
          Inr (write_extra distAlphabets (DistanceCode token) (DistanceOffset token) w2))))"

definition tokenise :: "byte list \<Rightarrow> error + Token list" where
  "tokenise content =
     andThen (FindMatch (utf8_decode content) maxAllowedBackwardDistance maxAllowedMatchLength)
       tokeniseLZSS"

text \<open>
  \<open>flate_compress\<close> is \<open>CompressionWriter.compress\<close> on a fresh compressor: it returns
  the bytes of the output buffer. The block header takes \<open>bfinal\<close> and \<open>btype\<close> from
  the compressor.
\<close>

definition flate_compress_from :: "writer \<Rightarrow> u32 \<Rightarrow> u32 \<Rightarrow> byte list \<Rightarrow> error + writer" where
  "flate_compress_from w0 btype bfinal content =
     andThen (tokenise content) (\<lambda>tokens0.
     andThen (LitLength_Encode tokens0) (\<lambda>(tokens1, LitLengthHuffman, litLenHuffmanLengths).
     andThen (Distance_Encode tokens1) (\<lambda>(tokens, DistanceHuffman, distHuffmanLengths).
     andThen (CodeLength_Encode (litLenHuffmanLengths @ distHuffmanLengths))
       (\<lambda>(condensed, CondensedHuffman, codeLengthHuffmanLengths).
       (let HLIT = int (length litLenHuffmanLengths) - 257;
            HDIST = int (length distHuffmanLengths) - 1;
            HCLEN = int (length codeLengthHuffmanLengths) - 4;
            w1 = writeCompressedContent w0 bfinal 1;
            w2 = writeCompressedContent w1 btype 2;
            w3 = writeCompressedContent w2 (of_int HLIT) 5;
            w4 = writeCompressedContent w3 (of_int HDIST) 5;
            w5 = writeCompressedContent w4 (of_int HCLEN) 4;
            w6 = foldl (\<lambda>w codeLen. writeCompressedContent w (of_int codeLen) 3) w5
                   codeLengthHuffmanLengths in
        andThen (foldE (write_condensed CondensedHuffman) condensed w6) (\<lambda>w7.
        andThen (foldE (write_token LitLengthHuffman DistanceHuffman) tokens w7) (\<lambda>w8.
        andThen (write_code LitLengthHuffman 256 w8) flushAlign)))))))"

definition new_bitBuffer :: bitBuffer where
  "new_bitBuffer = \<lparr>bitsHolder = 0, bitsCount = 0\<rparr>"

definition flate_compress :: "u32 \<Rightarrow> u32 \<Rightarrow> byte list \<Rightarrow> error + byte list" where
  "flate_compress btype bfinal content =
     andThen (flate_compress_from (new_bitBuffer, []) btype bfinal content) (\<lambda>w. Inr (snd w))"

section \<open>flate: decompression\<close>

fun TraverseHuffmanTree :: "reader \<Rightarrow> CanonicalHuffmanNode \<Rightarrow> int reading" where
  "TraverseHuffmanTree r (CNode item isLeaf left right) =
     (if isLeaf then
        (case item of None \<Rightarrow> Inl (Panic, r) | Some h \<Rightarrow> Inr (GetValue h, r))
      else
        andThen (readCompressedContent r 1) (\<lambda>(input, r').
          if input = 0 then
            (case left of None \<Rightarrow> Inl (TraversalFailed, r')
             | Some l \<Rightarrow> TraverseHuffmanTree r' l)
          else
            (case right of None \<Rightarrow> Inl (TraversalFailed, r')
             | Some n \<Rightarrow> TraverseHuffmanTree r' n)))"

definition read_offset :: "reader \<Rightarrow> int \<Rightarrow> int reading" where
  "read_offset r extraBits =
     (if extraBits > 0 then
        andThen (readCompressedContent r (nat extraBits)) (\<lambda>(v, r'). Inr (uint v, r'))
      else Inr (0, r))"

definition expandRule :: "reader \<Rightarrow> int list \<Rightarrow> int \<Rightarrow> int list reading" where
  "expandRule r concatenatedHuffmanLengths rule =
     andThen (read_offset r (ExtraBits rleAlphabets rule)) (\<lambda>(offset, r').
       if rule < 16 then Inr ([rule], r')
       else if rule = 16 then
         (if concatenatedHuffmanLengths = [] then Inl (CondensedOnEmpty, r')
          else Inr (replicate (nat (Base rleAlphabets rule + offset))
                      (last concatenatedHuffmanLengths), r'))
       else if rule < 19 then Inr (replicate (nat (Base rleAlphabets rule + offset)) 0, r')
       else Inl (NoRuleMatch, r'))"

lemma read_offset_range:
  "read_offset r e = Inr (offset, r') \<Longrightarrow> 0 \<le> offset"
  by (auto simp: read_offset_def andThen_def split: if_splits sum.splits)

lemma expandRule_nonempty:
  assumes "expandRule r acc rule = Inr (lengths, r')"
  shows "lengths \<noteq> []"
proof -
  from assms obtain offset r1 where
    o: "read_offset r (ExtraBits rleAlphabets rule) = Inr (offset, r1)" and
    e: "(if rule < 16 then Inr ([rule], r1)
         else if rule = 16 then
           (if acc = [] then Inl (CondensedOnEmpty, r1)
            else Inr (replicate (nat (Base rleAlphabets rule + offset)) (last acc), r1))
         else if rule < 19 then Inr (replicate (nat (Base rleAlphabets rule + offset)) 0, r1)
         else Inl (NoRuleMatch, r1)) = Inr (lengths, r')"
    by (auto simp: expandRule_def andThen_def split: sum.splits)
  have p: "0 \<le> offset" using o by (rule read_offset_range)
  have b: "Base rleAlphabets 16 = 3" "Base rleAlphabets 17 = 3" "Base rleAlphabets 18 = 11"
    by (simp_all add: Base_def rleAlphabets_def)
  consider "rule < 16" | "rule = 16" | "rule = 17" | "rule = 18" | "19 \<le> rule"
    by linarith
  then show ?thesis
  proof cases
    case 1
    with e show ?thesis by auto
  next
    case 2
    with e p b(1) have "lengths = replicate (nat (3 + offset)) (last acc)"
      by (auto split: if_splits)
    moreover have "0 < nat (3 + offset)" using p by simp
    ultimately show ?thesis by auto
  next
    case 3
    with e p b(2) have "lengths = replicate (nat (3 + offset)) 0" by auto
    moreover have "0 < nat (3 + offset)" using p by simp
    ultimately show ?thesis by auto
  next
    case 4
    with e p b(3) have "lengths = replicate (nat (11 + offset)) 0" by auto
    moreover have "0 < nat (11 + offset)" using p by simp
    ultimately show ?thesis by auto
  next
    case 5
    with e show ?thesis by auto
  qed
qed

function ReadCondensed_loop ::
  "CanonicalHuffmanNode \<Rightarrow> nat \<Rightarrow> reader \<Rightarrow> int list \<Rightarrow> int list reading" where
  "ReadCondensed_loop root totalLen r concatenatedHuffmanLengths =
     (if length concatenatedHuffmanLengths < totalLen then
        andThen (TraverseHuffmanTree r root) (\<lambda>(rule, r1).
        andThen (expandRule r1 concatenatedHuffmanLengths rule) (\<lambda>(lengths, r2).
          ReadCondensed_loop root totalLen r2 (concatenatedHuffmanLengths @ lengths)))
      else Inr (concatenatedHuffmanLengths, r))"
  by pat_completeness auto
termination
proof (relation "measure (\<lambda>(root, totalLen, r, acc). totalLen - length acc)", goal_cases)
  case 1
  then show ?case by simp
next
  case (2 root totalLen r acc p rule r1 q lengths r2)
  then have "lengths \<noteq> []" by (auto dest: expandRule_nonempty)
  with 2 show ?case by (cases lengths) auto
qed

declare ReadCondensed_loop.simps [simp del]

definition ReadCondensedHuffman ::
  "CanonicalHuffmanNode \<Rightarrow> reader \<Rightarrow> nat \<Rightarrow> nat \<Rightarrow> (int list \<times> int list) reading" where
  "ReadCondensedHuffman root r HLIT HDIST =
     andThen (ReadCondensed_loop root (HLIT + HDIST) r []) (\<lambda>(lengths, r').
       Inr ((take HLIT lengths, take HDIST (drop HLIT lengths)), r'))"

text \<open>
  One turn of the loop of \<open>ReadTokens\<close>: the next token, or \<open>None\<close> at the end of the
  block.
\<close>

definition read_token ::
  "CanonicalHuffmanNode \<Rightarrow> CanonicalHuffmanNode \<Rightarrow> reader \<Rightarrow> Token option reading" where
  "read_token litLenRoot distRoot r =
     andThen (TraverseHuffmanTree r litLenRoot) (\<lambda>(rule, r1).
     andThen (read_offset r1 (ExtraBits lenAlphabets rule)) (\<lambda>(offset, r2).
       if rule < 256 then Inr (Some (literal_token (of_int rule)), r2)
       else if rule = 256 then Inr (None, r2)
       else if rule < 286 then
         andThen (TraverseHuffmanTree r2 distRoot) (\<lambda>(drule, r3).
         andThen (read_offset r3 (ExtraBits distAlphabets drule)) (\<lambda>(doffset, r4).
           Inr (Some \<lparr>Kind = MatchToken, TValue = 0,
                       Length = Base lenAlphabets rule + offset,
                       Distance = Base distAlphabets drule + doffset,
                       DistanceCode = drule, DistanceOffset = doffset,
                       LengthCode = rule, LengthOffset = offset\<rparr>, r4)))
       else Inl (NoRuleMatch, r2)))"

text \<open>
  The loop of \<open>ReadTokens\<close> ends at the end-of-block symbol or at an error. It is a
  partial function: \<open>None\<close> is a loop that does not end, reported as \<open>Diverged\<close>.
\<close>

partial_function (option) ReadTokens_loop ::
  "CanonicalHuffmanNode \<Rightarrow> CanonicalHuffmanNode \<Rightarrow> reader \<Rightarrow> Token list
     \<Rightarrow> Token list reading option" where
  "ReadTokens_loop litLenRoot distRoot r tokens =
     (case read_token litLenRoot distRoot r of
        Inl e \<Rightarrow> Some (Inl e)
      | Inr (None, r') \<Rightarrow> Some (Inr (tokens, r'))
      | Inr (Some token, r') \<Rightarrow> ReadTokens_loop litLenRoot distRoot r' (tokens @ [token]))"

declare ReadTokens_loop.simps [code]

definition ReadTokens ::
  "CanonicalHuffmanNode \<Rightarrow> CanonicalHuffmanNode \<Rightarrow> reader \<Rightarrow> Token list reading" where
  "ReadTokens litLenRoot distRoot r =
     (case ReadTokens_loop litLenRoot distRoot r [] of
        None \<Rightarrow> Inl (Diverged, r) | Some x \<Rightarrow> x)"

text \<open>
  \<open>DecodeTokens\<close> copies a match out of the runes of the output so far. The slice
  expression of \<open>findMatch\<close> panics when it starts before the output; where it ends
  beyond the length of the rune slice, Go checks it against the capacity of the slice,
  which the language does not fix: the model takes the length.
\<close>

fun DecodeTokens_loop :: "Token list \<Rightarrow> byte list \<Rightarrow> error + byte list" where
  "DecodeTokens_loop [] output = Inr output"
| "DecodeTokens_loop (token # tokens) output =
     (case Kind token of
        LiteralToken \<Rightarrow> DecodeTokens_loop tokens (output @ [TValue token])
      | MatchToken \<Rightarrow>
          (let outputSoFarRune = utf8_decode output;
               startIdx = int (length outputSoFarRune) - Distance token;
               endIdx = startIdx + Length token in
           andThen (slice outputSoFarRune startIdx endIdx) (\<lambda>match.
             DecodeTokens_loop tokens (output @ utf8_encode match)))
      | EndOfBlockToken \<Rightarrow> DecodeTokens_loop tokens output)"

definition DecodeTokens :: "Token list \<Rightarrow> error + byte list" where
  "DecodeTokens tokens = DecodeTokens_loop tokens []"

definition reshuffle :: "int list \<Rightarrow> int list" where
  "reshuffle huffmanLengths =
     foldl (\<lambda>lengths (key, len). lengths[nat key := len]) (replicate 19 0)
       (zip rleKeyOrder huffmanLengths)"

fun read_many :: "nat \<Rightarrow> nat \<Rightarrow> reader \<Rightarrow> int list \<Rightarrow> int list reading" where
  "read_many 0 nbits r acc = Inr (acc, r)"
| "read_many (Suc n) nbits r acc =
     andThen (readCompressedContent r nbits) (\<lambda>(v, r').
       read_many n nbits r' (acc @ [uint v]))"

text \<open>
  \<open>flate_decompress_from\<close> is \<open>DecompressionWriter.decompress\<close>: it returns the bytes it
  writes to the output buffer and the state of the reader. \<open>bfinal\<close> and \<open>btype\<close> are
  read and stored in the core; nothing reads them again.
\<close>

definition flate_decompress_from :: "reader \<Rightarrow> byte list reading" where
  "flate_decompress_from r0 =
     andThen (readCompressedContent r0 1) (\<lambda>(bfinal, r1).
     andThen (readCompressedContent r1 2) (\<lambda>(btype, r2).
     andThen (readCompressedContent r2 5) (\<lambda>(hlit, r3).
     andThen (readCompressedContent r3 5) (\<lambda>(hdist, r4).
     andThen (readCompressedContent r4 4) (\<lambda>(hclen, r5).
       (let HLIT = unat (hlit + 257); HDIST = unat (hdist + 1); HCLEN = unat (hclen + 4) in
        andThen (read_many HCLEN 3 r5 []) (\<lambda>(codeLengthHuffmanLengths, r6).
        andThen (at_state r6 (BuildCanonicalHuffmanDecoder (reshuffle codeLengthHuffmanLengths)))
          (\<lambda>codeLengthRoot.
        andThen (ReadCondensedHuffman codeLengthRoot r6 HLIT HDIST)
          (\<lambda>((litLenHuffmanLengths, distHuffmanLengths), r7).
        andThen (at_state r7 (BuildCanonicalHuffmanDecoder litLenHuffmanLengths)) (\<lambda>litLenRoot.
        andThen (at_state r7 (BuildCanonicalHuffmanDecoder distHuffmanLengths)) (\<lambda>distRoot.
        andThen (ReadTokens litLenRoot distRoot r7) (\<lambda>(tokens, r8).
        andThen (at_state r8 (DecodeTokens tokens)) (\<lambda>data. Inr (data, r8))))))))))))))"

definition flate_decompress :: "byte list \<Rightarrow> error + byte list" where
  "flate_decompress content =
     (case flate_decompress_from (new_bitBuffer, content) of
        Inl (e, r) \<Rightarrow> Inl e | Inr (data, r) \<Rightarrow> Inr data)"

section \<open>lzss: the textual codec\<close>

definition Opening :: rune where "Opening = 0x3C"
definition Closing :: rune where "Closing = 0x3E"
definition Separator :: rune where "Separator = 0x2C"
definition Escape :: rune where "Escape = 0x5C"

definition conflictingLiterals :: "rune list" where
  "conflictingLiterals = [0x3C, 0x3E, 0x2C, 0x5C]"

definition escapeConflictingSymbols :: "rune list \<Rightarrow> rune list" where
  "escapeConflictingSymbols content =
     concat (map (\<lambda>symbol. if symbol \<in> set conflictingLiterals then [Escape, symbol]
                              else [symbol]) content)"

definition getSymbolEncoded :: "int \<Rightarrow> int \<Rightarrow> rune list" where
  "getSymbolEncoded negOffset len =
     [Opening] @ map uint (Itoa negOffset) @ [Separator] @ map uint (Itoa len) @ [Closing]"

fun lzss_emit :: "Reference list \<Rightarrow> int \<Rightarrow> rune list \<Rightarrow> error + rune list" where
  "lzss_emit [] nextRunesToIgnore compressedContentRune = Inr compressedContentRune"
| "lzss_emit (ref # refs) nextRunesToIgnore compressedContentRune =
     (if nextRunesToIgnore > 0 then
        lzss_emit refs (nextRunesToIgnore - 1) compressedContentRune
      else if IsRef ref then
        (let encoding = getSymbolEncoded (NegativeOffset ref) (Size ref) in
         if int (length encoding) < Size ref then
           lzss_emit refs (Size ref - 1) (compressedContentRune @ encoding)
         else
           andThen (at (Value ref) 0) (\<lambda>r.
             lzss_emit refs nextRunesToIgnore (compressedContentRune @ [r])))
      else lzss_emit refs nextRunesToIgnore (compressedContentRune @ Value ref))"

text \<open>
  \<open>lzss_compress\<close> is \<open>compress\<close> of the lzss package. The progress bar it drives is
  not modelled. A panic of a matcher goroutine ends the program.
\<close>

definition lzss_compress :: "byte list \<Rightarrow> int \<Rightarrow> int \<Rightarrow> error + byte list" where
  "lzss_compress content matchDistance matchLength =
     (let contentRune = escapeConflictingSymbols (utf8_decode content) in
      andThen (FindMatch contentRune matchDistance matchLength) (\<lambda>refs.
      andThen (lzss_emit refs 0 []) (\<lambda>compressedContentRune.
        Inr (utf8_encode compressedContentRune))))"

fun countEscapesInReverse_loop :: "rune list \<Rightarrow> int" where
  "countEscapesInReverse_loop [] = 0"
| "countEscapesInReverse_loop (c # cs) =
     (if c \<noteq> Escape then 0 else 1 + countEscapesInReverse_loop cs)"

text \<open>
  \<open>countEscapesInReverse content endIdx\<close> counts the escapes that end at \<open>endIdx\<close>,
  walking down from it: here on the reversed prefix.
\<close>

definition countEscapesInReverse :: "rune list \<Rightarrow> int \<Rightarrow> int" where
  "countEscapesInReverse content endIdx =
     (if endIdx < 0 then 0
      else countEscapesInReverse_loop (rev (take (nat (endIdx + 1)) content)))"

text \<open>
  \<open>replaceRef\<close> slices the content decoded so far. Where the slice ends beyond the
  length, Go checks it against the capacity of the slice, which the language does not fix:
  the model takes the length, as in \<open>DecodeTokens\<close>.
\<close>

definition replaceRef :: "rune list \<Rightarrow> int \<Rightarrow> int \<Rightarrow> int \<Rightarrow> error + rune list" where
  "replaceRef content refIdx negOffset len =
     slice content (refIdx - negOffset) (refIdx - negOffset + len)"

record backref_state =
  refOn :: bool
  currentNegOffset :: int
  currentLength :: int
  currentRefStart :: int
  refValue :: "rune list"
  derefedContent :: "rune list"

definition decodeBackRefs_step :: "rune list \<Rightarrow> backref_state \<Rightarrow> nat \<Rightarrow> error + backref_state" where
  "decodeBackRefs_step refedContent st i =
     (let c = refedContent ! i in
      if \<not> refOn st \<and> c = Opening \<and> countEscapesInReverse refedContent (int i - 1) mod 2 = 0
      then Inr (st\<lparr>refValue := [], currentRefStart := int (length (derefedContent st)),
                    refOn := True\<rparr>)
      else if refOn st then
        (if c = Separator then
           andThen (Atoi (refValue st)) (\<lambda>n. Inr (st\<lparr>currentNegOffset := n, refValue := []\<rparr>))
         else if c = Closing then
           andThen (Atoi (refValue st)) (\<lambda>n.
           andThen (replaceRef (derefedContent st) (currentRefStart st) (currentNegOffset st) n)
             (\<lambda>copy. Inr (st\<lparr>currentLength := n, refOn := False,
                              derefedContent := derefedContent st @ copy\<rparr>)))
         else Inr (st\<lparr>refValue := refValue st @ [c]\<rparr>))
      else Inr (st\<lparr>derefedContent := derefedContent st @ [c]\<rparr>))"

definition decodeBackRefs :: "rune list \<Rightarrow> error + rune list" where
  "decodeBackRefs refedContent =
     andThen (foldE (decodeBackRefs_step refedContent) [0 ..< length refedContent]
                \<lparr>refOn = False, currentNegOffset = 0, currentLength = 0, currentRefStart = 0,
                 refValue = [], derefedContent = []\<rparr>)
       (\<lambda>st. Inr (derefedContent st))"

text \<open>
  \<open>removeEscapes\<close> walks the content from its end; the recursion is on the reversed
  content, and \<open>cleanedContent\<close> is built in that order and reversed at the end.
\<close>

fun removeEscapes_loop :: "rune list \<Rightarrow> rune list \<Rightarrow> error + rune list" where
  "removeEscapes_loop [] cleanedContent = Inr cleanedContent"
| "removeEscapes_loop [c] cleanedContent =
     (if c \<in> set conflictingLiterals then Inl UnescapedLiteral else Inr (cleanedContent @ [c]))"
| "removeEscapes_loop (c # prev # rest) cleanedContent =
     (if c \<in> set conflictingLiterals then
        (if prev \<noteq> Escape then Inl UnescapedLiteral
         else removeEscapes_loop rest (cleanedContent @ [c]))
      else removeEscapes_loop (prev # rest) (cleanedContent @ [c]))"

definition removeEscapes :: "rune list \<Rightarrow> error + rune list" where
  "removeEscapes content =
     andThen (removeEscapes_loop (rev content) []) (\<lambda>cleanedContent. Inr (rev cleanedContent))"

definition lzss_decompress :: "byte list \<Rightarrow> error + byte list" where
  "lzss_decompress content =
     andThen (decodeBackRefs (utf8_decode content)) (\<lambda>contentRune.
     andThen (removeEscapes contentRune) (\<lambda>contentRune'. Inr (utf8_encode contentRune')))"

section \<open>gzip: checksum and byte order\<close>

text \<open>
  \<open>hash/crc32\<close> with the IEEE polynomial, bit by bit: a digest starts at 0, \<open>Write\<close>
  updates it, \<open>Sum32\<close> returns it. \<open>binary.LittleEndian\<close> puts the low byte first.
\<close>

definition crc32_bit :: "u32 \<Rightarrow> u32" where
  "crc32_bit c = (if c AND 1 = 1 then drop_bit 1 c XOR 0xEDB88320 else drop_bit 1 c)"

definition crc32_byte :: "u32 \<Rightarrow> byte \<Rightarrow> u32" where
  "crc32_byte c b = (crc32_bit ^^ 8) (c XOR ucast b)"

definition crc32_update :: "u32 \<Rightarrow> byte list \<Rightarrow> u32" where
  "crc32_update crc p = NOT (foldl crc32_byte (NOT crc) p)"


definition PutUint32 :: "u32 \<Rightarrow> byte list" where
  "PutUint32 v = [ucast v, ucast (drop_bit 8 v), ucast (drop_bit 16 v), ucast (drop_bit 24 v)]"

definition Uint32 :: "byte list \<Rightarrow> u32" where
  "Uint32 b = ucast (b ! 0) OR push_bit 8 (ucast (b ! 1)) OR push_bit 16 (ucast (b ! 2))
                OR push_bit 24 (ucast (b ! 3))"

definition gzip_header :: "byte list" where
  "gzip_header = [0x1f, 0x8b, 0x08, 0x00, 0, 0, 0, 0, 0x00, 0xff]"

section \<open>The readers and writers of the four codecs\<close>

text \<open>
  Every factory returns a reader and a writer that share one core. The cores of the
  packages are modelled by one record; a codec uses the fields its own core has. The
  pipe of the gzip cores is the list of the bytes written to it and not yet read.
\<close>

record core =
  inputBuffer :: "byte list"
  outputBuffer :: "byte list"
  isInputBufferClosed :: bool
  bitBuf :: bitBuffer
  pipeBuffer :: "byte list"
  pipeClosed :: bool
  IsHeaderParsed :: bool
  Trailer :: "byte list"
  Crc :: u32
  CSize :: u32
  CurrentCrc :: u32
  CurrentSize :: u32

text \<open>
  What the program reads from its environment: the order in which \<open>range\<close> visits a
  map, \<open>unicode.IsDigit\<close>, and the schedule of the goroutine that \<open>processData\<close> starts:
  whether it calls \<open>Read\<close> before the writer is closed, and which of the two channels the
  \<open>select\<close> takes when both are ready.
\<close>

record runtime =
  map_order :: "freq_map \<Rightarrow> freq_map"
  unicode_IsDigit :: "rune \<Rightarrow> bool"
  reads_before_close :: bool
  select_takes_errorCh :: bool

datatype codec =
    HuffmanC | HuffmanD | LzssC | LzssD
  | FlateC u32 u32 | FlateD | GzipC u32 u32 | GzipD

text \<open>
  \<open>FlateC btype bfinal\<close> and \<open>GzipC btype bfinal\<close> carry the arguments of
  \<open>flate.NewCompressionReaderAndWriter\<close>. The gzip compressor writes its header to the
  pipe when it is made (in a goroutine of its own, taken to write before the first
  \<open>Close\<close>), and the trailer of the gzip decompressor starts as eight zero bytes.
\<close>

definition new_core :: "codec \<Rightarrow> core" where
  "new_core P =
     \<lparr>inputBuffer = [], outputBuffer = [], isInputBufferClosed = False,
      bitBuf = new_bitBuffer,
      pipeBuffer = (case P of GzipC btype bfinal \<Rightarrow> gzip_header | _ \<Rightarrow> []),
      pipeClosed = False, IsHeaderParsed = False, Trailer = replicate 8 0,
      Crc = 0, CSize = 0, CurrentCrc = 0, CurrentSize = 0\<rparr>"

text \<open>
  The function a buffered writer (huffman, lzss) runs on the whole input when it is
  closed. \<open>huffman.compress\<close> and \<open>huffman.decompress\<close> return no error: they end the
  program instead.
\<close>

definition buffered_fun :: "runtime \<Rightarrow> codec \<Rightarrow> byte list \<Rightarrow> error + byte list" where
  "buffered_fun rt P data =
     (case P of
        HuffmanC \<Rightarrow> compress (map_order rt) data
      | HuffmanD \<Rightarrow> decompress (unicode_IsDigit rt) data
      | LzssC \<Rightarrow> lzss_compress data 4096 (min 4096 4096)
      | _ \<Rightarrow> lzss_decompress data)"

text \<open>
  A call returns Go's error (\<open>None\<close> is \<open>nil\<close>) and the core after it. The error
  \<open>Panic\<close> is a panic of the call, or of a goroutine it starts, which ends the program.
\<close>

definition flate_Write :: "byte list \<Rightarrow> core \<Rightarrow> error option \<times> core" where
  "flate_Write p c =
     (if isInputBufferClosed c then (Some WriteAfterClose, c)
      else (None, c\<lparr>inputBuffer := inputBuffer c @ p\<rparr>))"

definition gzip_Trailer :: "byte list \<Rightarrow> byte list \<Rightarrow> byte list" where
  "gzip_Trailer trailer p =
     (if length trailer + length p < 8 then trailer @ p
      else if length p < 8 then drop (length p) trailer @ p
      else take (length trailer) (drop (length p - 8) p) @ drop 8 trailer)"

definition writer_Write :: "codec \<Rightarrow> byte list \<Rightarrow> core \<Rightarrow> error option \<times> core" where
  "writer_Write P p c =
     (case P of
        FlateC btype bfinal \<Rightarrow> flate_Write p c
      | FlateD \<Rightarrow> flate_Write p c
      | GzipC btype bfinal \<Rightarrow>
          flate_Write p (c\<lparr>Crc := crc32_update (Crc c) p, CSize := CSize c + of_nat (length p)\<rparr>)
      | GzipD \<Rightarrow>
          (if \<not> IsHeaderParsed c \<and> length p < 10 then (Some Panic, c)
           else
             (let p' = (if \<not> IsHeaderParsed c then drop 10 p else p) in
              flate_Write p' (c\<lparr>IsHeaderParsed := True, Trailer := gzip_Trailer (Trailer c) p'\<rparr>)))
      | _ \<Rightarrow> (None, c\<lparr>inputBuffer := inputBuffer c @ p\<rparr>))"

definition flateC_Close :: "u32 \<Rightarrow> u32 \<Rightarrow> core \<Rightarrow> error option \<times> core" where
  "flateC_Close btype bfinal c =
     (case flate_compress_from (bitBuf c, outputBuffer c) btype bfinal (inputBuffer c) of
        Inl e \<Rightarrow> (Some e, c\<lparr>inputBuffer := []\<rparr>)
      | Inr (bb, out) \<Rightarrow>
          (None, c\<lparr>inputBuffer := [], bitBuf := bb, outputBuffer := out,
                     isInputBufferClosed := True\<rparr>))"

definition flateD_Close :: "core \<Rightarrow> error option \<times> core" where
  "flateD_Close c =
     (case flate_decompress_from (bitBuf c, inputBuffer c) of
        Inl (e, bb, input) \<Rightarrow> (Some e, c\<lparr>bitBuf := bb, inputBuffer := input\<rparr>)
      | Inr (data, bb, input) \<Rightarrow>
          (None, c\<lparr>bitBuf := bb, inputBuffer := input,
                     outputBuffer := outputBuffer c @ data, isInputBufferClosed := True\<rparr>))"

text \<open>
  The gzip writers close the flate writer in a goroutine that panics on its error, copy
  what the flate reader holds to the pipe, close the flate reader (which empties the
  flate input buffer and reopens it) and close the pipe; the compressor writes the
  trailer before. \<open>io.Copy\<close> takes up to 32768 bytes from the flate reader before a
  write to a closed pipe fails; the error of the write of the trailer is dropped.
\<close>

definition gzip_finish :: "byte list \<Rightarrow> core \<Rightarrow> error option \<times> core" where
  "gzip_finish trailer c =
     (if pipeClosed c then
        (if outputBuffer c \<noteq> [] then
           (Some ClosedPipe, c\<lparr>outputBuffer := drop 32768 (outputBuffer c)\<rparr>)
         else (None, c\<lparr>inputBuffer := [], isInputBufferClosed := False\<rparr>))
      else (None, c\<lparr>pipeBuffer := pipeBuffer c @ outputBuffer c @ trailer, outputBuffer := [],
                      inputBuffer := [], isInputBufferClosed := False, pipeClosed := True\<rparr>))"

definition writer_Close :: "runtime \<Rightarrow> codec \<Rightarrow> core \<Rightarrow> error option \<times> core" where
  "writer_Close rt P c =
     (case P of
        FlateC btype bfinal \<Rightarrow> flateC_Close btype bfinal c
      | FlateD \<Rightarrow> flateD_Close c
      | GzipC btype bfinal \<Rightarrow>
          (case flateC_Close btype bfinal c of
             (Some e, c') \<Rightarrow> (Some Panic, c')
           | (None, c') \<Rightarrow> gzip_finish (PutUint32 (Crc c') @ PutUint32 (CSize c')) c')
      | GzipD \<Rightarrow>
          (case flateD_Close c of
             (Some e, c') \<Rightarrow> (Some Panic, c')
           | (None, c') \<Rightarrow> gzip_finish [] c')
      | _ \<Rightarrow>
          (let c' = c\<lparr>isInputBufferClosed := True, inputBuffer := []\<rparr> in
           case buffered_fun rt P (inputBuffer c) of
             Inl e \<Rightarrow> (Some e, c')
           | Inr data \<Rightarrow> (None, c'\<lparr>outputBuffer := outputBuffer c' @ data\<rparr>)))"

text \<open>
  \<open>io.ReadAll\<close> on the reader. The readers of huffman and lzss fail while the writer is
  not closed; those of flate and gzip wait, so for them the call is the one after the
  writer is closed. The gzip decompression reader counts and sums what it hands out.
\<close>

definition blocking :: "codec \<Rightarrow> bool" where
  "blocking P = (case P of FlateC btype bfinal \<Rightarrow> True | FlateD \<Rightarrow> True
                  | GzipC btype bfinal \<Rightarrow> True | GzipD \<Rightarrow> True | _ \<Rightarrow> False)"

definition reader_ReadAll :: "codec \<Rightarrow> core \<Rightarrow> (error + byte list) \<times> core" where
  "reader_ReadAll P c =
     (case P of
        GzipC btype bfinal \<Rightarrow> (Inr (pipeBuffer c), c\<lparr>pipeBuffer := []\<rparr>)
      | GzipD \<Rightarrow>
          (Inr (pipeBuffer c),
           c\<lparr>pipeBuffer := [], CurrentSize := CurrentSize c + of_nat (length (pipeBuffer c)),
              CurrentCrc := crc32_update (CurrentCrc c) (pipeBuffer c)\<rparr>)
      | _ \<Rightarrow>
          (if \<not> blocking P \<and> \<not> isInputBufferClosed c then (Inl ReaderNotClosed, c)
           else (Inr (outputBuffer c), c\<lparr>outputBuffer := []\<rparr>)))"

definition reader_Close :: "codec \<Rightarrow> core \<Rightarrow> error option \<times> core" where
  "reader_Close P c =
     (case P of
        GzipC btype bfinal \<Rightarrow> (None, c)
      | GzipD \<Rightarrow>
          (if length (Trailer c) \<noteq> 8 then (Some TrailerInsufficient, c)
           else if Uint32 (drop 4 (Trailer c)) \<noteq> CurrentSize c then (Some SizeMismatch, c)
           else if Uint32 (take 4 (Trailer c)) \<noteq> CurrentCrc c then (Some CrcMismatch, c)
           else (None, c))
      | FlateC btype bfinal \<Rightarrow> (None, c\<lparr>inputBuffer := [], isInputBufferClosed := False\<rparr>)
      | FlateD \<Rightarrow> (None, c\<lparr>inputBuffer := [], isInputBufferClosed := False\<rparr>)
      | _ \<Rightarrow> (None, c\<lparr>inputBuffer := []\<rparr>))"

section \<open>The dispatcher\<close>

text \<open>
  \<open>feed\<close> is one \<open>Write\<close> of the whole input followed by one \<open>Close\<close> of the writer,
  as \<open>processData\<close> calls them.
\<close>

definition feed :: "runtime \<Rightarrow> codec \<Rightarrow> byte list \<Rightarrow> error option \<times> core" where
  "feed rt P inputData =
     (case writer_Write P inputData (new_core P) of
        (Some e, c1) \<Rightarrow> (Some e, c1)
      | (None, c1) \<Rightarrow> writer_Close rt P c1)"

text \<open>
  The \<open>select\<close> of \<open>processData\<close> on what the goroutine got from \<open>io.ReadAll\<close>. The
  goroutine sends to one channel and closes both: with an error, the result channel is
  ready with \<open>nil\<close>; with a result, the error channel may be ready with \<open>nil\<close>, and then
  \<open>processData\<close> falls through to its last line.
\<close>

definition select_result :: "runtime \<Rightarrow> error + byte list \<Rightarrow> error + byte list" where
  "select_result rt g =
     (case g of
        Inl e \<Rightarrow> if select_takes_errorCh rt then Inl e else Inr []
      | Inr data \<Rightarrow> if select_takes_errorCh rt then Inl UnexpectedProcessing else Inr data)"

text \<open>
  \<open>run_once\<close> is the body of \<open>processData\<close>: it returns what the body returns, and the
  core at that moment.
\<close>

definition run_once :: "runtime \<Rightarrow> codec \<Rightarrow> byte list \<Rightarrow> (error + byte list) \<times> core" where
  "run_once rt P inputData =
     (let early = (if reads_before_close rt \<and> \<not> blocking P
                   then Some (fst (reader_ReadAll P (new_core P))) else None) in
      case feed rt P inputData of
        (Some e, c2) \<Rightarrow> (Inl e, c2)
      | (None, c2) \<Rightarrow>
          (case early of
             Some g \<Rightarrow> (select_result rt g, c2)
           | None \<Rightarrow> (case reader_ReadAll P c2 of (g, c3) \<Rightarrow> (select_result rt g, c3))))"

text \<open>
  \<open>processData\<close> defers \<open>reader.Close()\<close> and \<open>writer.Close()\<close>: when its body
  returns, the writer is closed a second time and then the reader is closed, and what the
  two calls return is dropped. A panic of a deferred call is the outcome of
  \<open>processData\<close>.
\<close>

definition deferred_panic :: "runtime \<Rightarrow> codec \<Rightarrow> core \<Rightarrow> bool" where
  "deferred_panic rt P c =
     (case writer_Close rt P c of
        (e, c') \<Rightarrow> e = Some Panic \<or> fst (reader_Close P c') = Some Panic)"

definition processData :: "runtime \<Rightarrow> codec \<Rightarrow> byte list \<Rightarrow> error + byte list" where
  "processData rt P inputData =
     (case run_once rt P inputData of
        (result, c) \<Rightarrow>
          if result = Inl Panic \<or> deferred_panic rt P c then Inl Panic else result)"

record Options =
  Algorithm :: string
  BType :: u32
  BFinal :: u32

definition IsValidAlgorithm :: "string \<Rightarrow> bool" where
  "IsValidAlgorithm algorithm = (algorithm \<in> set [''huffman'', ''lzss'', ''flate'', ''gzip''])"

definition compression_codec :: "Options \<Rightarrow> codec" where
  "compression_codec options =
     (let btype = (if BType options = 0 then 2 else BType options) in
      if Algorithm options = ''huffman'' then HuffmanC
      else if Algorithm options = ''lzss'' then LzssC
      else if Algorithm options = ''flate'' then FlateC btype (BFinal options)
      else GzipC btype (BFinal options))"

definition decompression_codec :: "Options \<Rightarrow> codec" where
  "decompression_codec options =
     (if Algorithm options = ''huffman'' then HuffmanD
      else if Algorithm options = ''lzss'' then LzssD
      else if Algorithm options = ''flate'' then FlateD
      else GzipD)"

text \<open>
  \<open>Compress\<close> and \<open>Decompress\<close> return the bytes or the error; the statistics they
  also return (sizes and a floating-point ratio) are not modelled.
\<close>

definition Compress :: "runtime \<Rightarrow> byte list \<Rightarrow> Options \<Rightarrow> error + byte list" where
  "Compress rt data options =
     (if \<not> IsValidAlgorithm (Algorithm options) then Inl UnsupportedAlgorithm
      else processData rt (compression_codec options) data)"

definition Decompress :: "runtime \<Rightarrow> byte list \<Rightarrow> Options \<Rightarrow> error + byte list" where
  "Decompress rt data options =
     (if \<not> IsValidAlgorithm (Algorithm options) then Inl UnsupportedAlgorithm
      else processData rt (decompression_codec options) data)"

section \<open>Auxiliary notions of the proofs\<close>

text \<open>
  Results of the run-length encoder with a list of items put in front of the output, and
  the two closing calls of \<open>FindCode\<close> as a function of the state.
\<close>

definition prefix_out :: "rle_item list \<Rightarrow> error + rle_state \<Rightarrow> error + rle_state" where
  "prefix_out p r =
     (case r of Inl e \<Rightarrow> Inl e | Inr (cz, cs, out) \<Rightarrow> Inr (cz, cs, p @ out))"

definition FindCode_finish :: "int list \<Rightarrow> rle_state \<Rightarrow> error + rle_item list" where
  "FindCode_finish zs st =
     andThen (resolveCountZero st) (\<lambda>st1.
     andThen (resolveCountSame zs (int (length zs) - 1) st1)
       (\<lambda>(countZero, countSame, out). Inr out))"

definition prepend_items :: "rle_item list \<Rightarrow> error + rle_item list \<Rightarrow> error + rle_item list" where
  "prepend_items p r = (case r of Inl e \<Rightarrow> Inl e | Inr out \<Rightarrow> Inr (p @ out))"

text \<open>A bit string: a Go string of the characters \<open>0\<close> and \<open>1\<close>.\<close>

definition bitstring :: "byte list \<Rightarrow> bool" where
  "bitstring bs = list_all (\<lambda>c. c = 48 \<or> c = 49) bs"

section \<open>Concrete inputs of the examples\<close>

definition refs_aaaaaa :: "Reference list" where
  "refs_aaaaaa =
    [\<lparr>Value = [97], IsRef = False, NegativeOffset = 0, Size = 1\<rparr>,
     \<lparr>Value = [97], IsRef = False, NegativeOffset = 0, Size = 1\<rparr>,
     \<lparr>Value = [97, 97], IsRef = True, NegativeOffset = 2, Size = 2\<rparr>,
     \<lparr>Value = [97, 97, 97], IsRef = True, NegativeOffset = 3, Size = 3\<rparr>,
     \<lparr>Value = [97, 97], IsRef = True, NegativeOffset = 4, Size = 2\<rparr>,
     \<lparr>Value = [97], IsRef = False, NegativeOffset = 0, Size = 1\<rparr>]"

text \<open>
  The dynamic-Huffman block that the compressor writes for \<open>aaaaaa\<close>, without its first
  byte (which holds BFINAL, BTYPE and the low bits of HLIT), and the input \<open>ABABABABAB\<close>
  with its block.
\<close>

definition block_aaaaaa :: "byte list" where
  "block_aaaaaa = [194, 1, 9, 0, 0, 0, 128, 160, 173, 254, 63, 81, 32, 22]"

definition input_ABAB :: "byte list" where
  "input_ABAB = [65, 66, 65, 66, 65, 66, 65, 66, 65, 66]"

definition block_ABAB :: "byte list" where
  "block_ABAB = [20, 195, 49, 13, 0, 0, 0, 194, 48, 109, 171, 127, 81, 132, 163, 201, 101]"


text \<open>
  The gzip member of \<open>aaaaaa\<close> (its CRC-32 is \<open>5a e4 19 f8\<close>), the member with the last
  byte of the CRC complemented, and a runtime in which the goroutine reads after the
  writer is closed and the \<open>select\<close> takes the result.
\<close>

definition gzip_aaaaaa :: "byte list" where
  "gzip_aaaaaa = gzip_header @ 12 # block_aaaaaa @ [248, 25, 228, 90, 6, 0, 0, 0]"

definition gzip_aaaaaa_bad_crc :: "byte list" where
  "gzip_aaaaaa_bad_crc = gzip_header @ 12 # block_aaaaaa @ [248, 25, 228, 165, 6, 0, 0, 0]"

section \<open>Properties of the bit reversal\<close>

lemma bit_Reverse_step:
  "bit (push_bit 1 out OR (n AND 1) :: u32) j \<longleftrightarrow>
     j < 32 \<and> (if j = 0 then bit n 0 else bit out (j - 1))"
proof (cases j)
  case 0
  then show ?thesis
    by (simp only: bit_or_iff bit_push_bit_iff bit_and_iff bit_1_iff) simp
next
  case (Suc k)
  then show ?thesis
    by (simp only: bit_or_iff bit_push_bit_iff bit_and_iff bit_1_iff)
      (auto dest: bit_imp_le_length)
qed

lemma bit_Reverse_loop:
  "bit (Reverse_loop n out l) i \<longleftrightarrow>
     i < 32 \<and> (if i < l then bit n (l - 1 - i) else bit out (i - l))"
proof (induction l arbitrary: n out i)
  case 0
  then show ?case by (auto dest: bit_imp_le_length)
next
  case (Suc l)
  have "bit (Reverse_loop n out (Suc l)) i \<longleftrightarrow>
     i < 32 \<and> (if i < l then bit (drop_bit 1 n) (l - 1 - i)
                else bit (push_bit 1 out OR (n AND 1)) (i - l))"
    by (simp only: Reverse_loop.simps Suc.IH)
  also have "\<dots> \<longleftrightarrow>
     i < 32 \<and> (if i < Suc l then bit n (Suc l - 1 - i) else bit out (i - Suc l))"
    by (auto simp only: bit_Reverse_step bit_drop_bit_eq)
      (auto simp: less_Suc_eq Suc_diff_Suc)
  finally show ?case .
qed

lemma unat_less_no_high_bit:
  fixes n :: u32
  assumes "unat n < 2 ^ L" "L \<le> j"
  shows "\<not> bit n j"
proof -
  have "2 ^ L \<le> (2::nat) ^ j" using assms(2) by simp
  then have "unat n < 2 ^ j" using assms(1) by linarith
  then have "unat n div 2 ^ j = 0" by simp
  then have "\<not> bit (unat n) j" by (simp add: bit_iff_odd)
  then show ?thesis by (simp add: bit_unsigned_iff)
qed

text \<open>
  Claim C9. For every 32-bit value \<open>n\<close> and bit length \<open>L\<close> with \<open>n < 2 ^ L\<close> and
  \<open>L \<le> 32\<close>, reversing the low \<open>L\<close> bits of \<open>n\<close> twice with \<open>Reverse\<close> gives \<open>n\<close>
  back.
\<close>

theorem Reverse_involution:
  assumes "unat n < 2 ^ unat L" and "unat L \<le> 32"
  shows "Reverse (Reverse n L) L = n"
proof (rule bit_word_eqI)
  fix i assume "i < LENGTH(32)"
  then show "bit (Reverse (Reverse n L) L) i = bit n i"
    using unat_less_no_high_bit [OF assms(1), of i] assms(2)
    by (auto simp: Reverse_def bit_Reverse_loop)
qed

theorem Reverse_involution_witness:
  "unat (5 :: u32) < 2 ^ unat (3 :: u32) \<and> unat (3 :: u32) \<le> 32
     \<and> Reverse (Reverse 5 3) 3 = (5 :: u32)"
  using Reverse_involution [of 5 3] by simp

section \<open>The matcher never produces an overlapping reference\<close>

lemma andThen_eq_Inr:
  "andThen m f = Inr y \<longleftrightarrow> (\<exists>x. m = Inr x \<and> f x = Inr y)"
  by (cases m) simp_all

lemma andThen_eq_Inl:
  "andThen m f = Inl e \<longleftrightarrow> m = Inl e \<or> (\<exists>x. m = Inr x \<and> f x = Inl e)"
  by (cases m) simp_all

lemma at_eq_Inr: "at xs i = Inr x \<longleftrightarrow> 0 \<le> i \<and> i < int (length xs) \<and> x = xs ! nat i"
  by (auto simp: at_def)

lemma at_eq_Inl: "at xs i = Inl e \<longleftrightarrow> e = Panic \<and> \<not> (0 \<le> i \<and> i < int (length xs))"
  by (auto simp: at_def)

text \<open>
  The match found by \<open>kmp\<close> ends inside the search buffer: the loop keeps
  \<open>best + bestIndex\<close> at most the number of buffer runes read so far.
\<close>

lemma kmp_loop_inside:
  "kmp_loop pi pattern bs i best k bestIndex = Inr (m, at_idx) \<Longrightarrow>
   best + bestIndex \<le> i \<Longrightarrow> m + at_idx \<le> i + int (length bs)"
proof (induction bs arbitrary: i best k bestIndex)
  case Nil
  then show ?case by simp
next
  case (Cons b bs)
  from Cons.prems(1) obtain k1 p where
    run: "(let k2 = (if b = p then k1 + 1 else k1) in
        if best < k2 then
          (if k2 = int (length pattern) then Inr (k2, i - k2 + 1)
           else kmp_loop pi pattern bs (i + 1) k2 k2 (i - k2 + 1))
        else kmp_loop pi pattern bs (i + 1) best k2 bestIndex) = Inr (m, at_idx)"
    by (auto simp: andThen_eq_Inr)
  define k2 where "k2 = (if b = p then k1 + 1 else k1)"
  show ?case
  proof (cases "best < k2")
    case True
    show ?thesis
    proof (cases "k2 = int (length pattern)")
      case True
      with \<open>best < k2\<close> run have "m = k2" "at_idx = i - k2 + 1"
        by (simp_all add: k2_def Let_def split: if_splits)
      then show ?thesis by simp
    next
      case False
      with \<open>best < k2\<close> run
      have "kmp_loop pi pattern bs (i + 1) k2 k2 (i - k2 + 1) = Inr (m, at_idx)"
        by (simp add: k2_def Let_def split: if_splits)
      from Cons.IH [OF this] show ?thesis by simp
    qed
  next
    case False
    with run have "kmp_loop pi pattern bs (i + 1) best k2 bestIndex = Inr (m, at_idx)"
      by (simp add: k2_def Let_def split: if_splits)
    from Cons.IH [OF this] Cons.prems(2) show ?thesis by simp
  qed
qed

lemma kmp_inside:
  assumes "kmp searchBuffer pattern = Inr (m, at_idx)"
  shows "m + at_idx \<le> int (length searchBuffer)"
proof -
  from assms obtain pi where "kmp_loop pi pattern searchBuffer 0 0 0 0 = Inr (m, at_idx)"
    by (auto simp: kmp_def andThen_eq_Inr)
  from kmp_loop_inside [OF this] show ?thesis by simp
qed

lemma matchSearchBuffer_no_overlap:
  assumes "matchSearchBuffer searchBuffer scanRunes nextRunes = Inr ref" and "IsRef ref"
  shows "Size ref \<le> NegativeOffset ref"
proof -
  from assms(1) obtain m at_idx where
    k: "kmp searchBuffer (scanRunes @ nextRunes) = Inr (m, at_idx)" and
    r: "(if m > 1 then
          andThen (slice (scanRunes @ nextRunes) 0 m) (\<lambda>v.
            Inr \<lparr>Value = v, IsRef = True,
                 NegativeOffset = int (length searchBuffer) - at_idx, Size = m\<rparr>)
        else Inr \<lparr>Value = scanRunes, IsRef = False, NegativeOffset = 0,
                  Size = int (length scanRunes)\<rparr>) = Inr ref"
    by (auto simp: matchSearchBuffer_def Let_def andThen_eq_Inr)
  from r assms(2) have "Size ref = m" "NegativeOffset ref = int (length searchBuffer) - at_idx"
    by (auto simp: andThen_eq_Inr split: if_splits)
  with kmp_inside [OF k] show ?thesis by simp
qed

lemma collect_Inr_set:
  "collect f xs = Inr ys \<Longrightarrow> y \<in> set ys \<Longrightarrow> \<exists>x \<in> set xs. f x = Inr y"
proof (induction xs arbitrary: ys)
  case Nil
  then show ?case by simp
next
  case (Cons x xs)
  from Cons.prems(1) obtain z zs where
    "f x = Inr z" "collect f xs = Inr zs" "ys = z # zs"
    by (auto simp: andThen_eq_Inr)
  with Cons.IH [of zs] Cons.prems(2) show ?case by auto
qed

lemma FindMatch_no_overlap:
  assumes "FindMatch content matchDistance matchLength = Inr refs"
    and "ref \<in> set refs" and "IsRef ref"
  shows "Size ref \<le> NegativeOffset ref"
proof -
  from collect_Inr_set [OF assms(1) [unfolded FindMatch_def] assms(2)]
  obtain i where "matchAt content matchDistance matchLength i = Inr ref" by blast
  then obtain sb nx where "matchSearchBuffer sb [content ! i] nx = Inr ref"
    by (auto simp: matchAt_def Let_def andThen_eq_Inr)
  from matchSearchBuffer_no_overlap [OF this assms(3)] show ?thesis .
qed

lemma tokeniseLZSS_loop_no_overlap:
  "\<forall>ref \<in> set refs. IsRef ref \<longrightarrow> Size ref \<le> NegativeOffset ref \<Longrightarrow>
   tokeniseLZSS_loop refs n tokens \<noteq> Inl TokenOverlap"
proof (induction refs arbitrary: n tokens)
  case Nil
  then show ?case by simp
next
  case (Cons ref refs)
  then show ?case
    by (auto simp: andThen_eq_Inl at_eq_Inl)
qed

text \<open>
  Claim C10. Every back-reference that the matcher (\<open>FindMatch\<close>, which runs
  \<open>matchSearchBuffer\<close> and \<open>kmp\<close> on the window before each position) produces has
  \<open>Size \<le> NegativeOffset\<close>; hence \<open>tokeniseLZSS\<close> never takes its branch that rejects
  an overlapping match on the matcher's references.
\<close>

theorem matcher_refs_never_overlap:
  assumes "FindMatch content matchDistance matchLength = Inr refs"
  shows "(\<forall>ref \<in> set refs. IsRef ref \<longrightarrow> Size ref \<le> NegativeOffset ref)
         \<and> tokeniseLZSS refs \<noteq> Inl TokenOverlap"
proof
  show *: "\<forall>ref \<in> set refs. IsRef ref \<longrightarrow> Size ref \<le> NegativeOffset ref"
    using FindMatch_no_overlap [OF assms] by blast
  show "tokeniseLZSS refs \<noteq> Inl TokenOverlap"
    unfolding tokeniseLZSS_def by (rule tokeniseLZSS_loop_no_overlap [OF *])
qed

text \<open>The matcher on the six runes of \<open>aaaaaa\<close>, with the distances DEFLATE passes.\<close>

theorem matcher_refs_never_overlap_witness:
  "FindMatch [97, 97, 97, 97, 97, 97] 32768 258 = Inr refs_aaaaaa
   \<and> IsRef (refs_aaaaaa ! 3)
   \<and> Size (refs_aaaaaa ! 3) \<le> NegativeOffset (refs_aaaaaa ! 3)
   \<and> tokeniseLZSS refs_aaaaaa \<noteq> Inl TokenOverlap"
proof -
  have e: "FindMatch [97, 97, 97, 97, 97, 97] 32768 258 = Inr refs_aaaaaa"
    by code_simp
  have m: "refs_aaaaaa ! 3 \<in> set refs_aaaaaa" and r: "IsRef (refs_aaaaaa ! 3)"
    by (simp_all add: refs_aaaaaa_def)
  from matcher_refs_never_overlap [OF e] e m r show ?thesis by blast
qed

section \<open>The run-length encoder on runs\<close>

lemma prefix_out_simps [simp]:
  "prefix_out p (Inl e) = Inl e"
  "prefix_out p (Inr (cz, cs, out)) = Inr (cz, cs, p @ out)"
  by (simp_all add: prefix_out_def)

lemma prefix_out_andThen:
  "prefix_out p (andThen m f) = andThen m (\<lambda>x. prefix_out p (f x))"
  by (cases m) simp_all

lemma andThen_prefix_out:
  "andThen (prefix_out p m) f = andThen m (\<lambda>(cz, cs, out). f (cz, cs, p @ out))"
  by (cases m) auto

lemma resolveCountZero_prefix:
  "resolveCountZero (cz, cs, p @ out) = prefix_out p (resolveCountZero (cz, cs, out))"
  by (simp add: resolveCountZero_def)

lemma resolveCountSame_prefix:
  "resolveCountSame xs j (cz, cs, p @ out) = prefix_out p (resolveCountSame xs j (cz, cs, out))"
  by (simp add: resolveCountSame_def prefix_out_andThen)

lemma resolveCountSame_at_cong:
  "at xs j = at ys j' \<Longrightarrow> resolveCountSame xs j st = resolveCountSame ys j' st"
  by (simp add: resolveCountSame_def split: prod.splits)

lemma at_append_left: "i < int (length xs) \<Longrightarrow> at (xs @ ys) i = at xs i"
  by (auto simp: at_def nth_append)

lemma at_append_right:
  "0 \<le> j \<Longrightarrow> at (xs @ ys) (int (length xs) + j) = at ys j"
  by (auto simp: at_def nth_append nat_add_distrib)

lemma FindCode_step_left:
  assumes "i < length xs"
  shows "FindCode_step (xs @ ys) st i = FindCode_step xs st i"
proof -
  have a: "(xs @ ys) ! i = xs ! i" using assms by (simp add: nth_append)
  have "i - 1 < length xs" using assms by simp
  then have b: "(xs @ ys) ! (i - 1) = xs ! (i - 1)" by (simp only: nth_append if_True)
  have c: "resolveCountSame (xs @ ys) (int i - 1) = resolveCountSame xs (int i - 1)"
    using assms by (intro ext resolveCountSame_at_cong at_append_left) simp
  show ?thesis unfolding FindCode_step_def a c using b by (auto simp: Let_def)
qed

lemma FindCode_step_right:
  assumes "1 \<le> j" "j < length ys"
  shows "FindCode_step (xs @ ys) (cz, cs, p @ out) (length xs + j)
         = prefix_out p (FindCode_step ys (cz, cs, out) j)"
proof -
  have a: "(xs @ ys) ! (length xs + j) = ys ! j" by (simp add: nth_append)
  have "length xs + j - 1 = length xs + (j - 1)" using assms by simp
  then have b: "(xs @ ys) ! (length xs + j - 1) = ys ! (j - 1)"
    by (simp only: nth_append_length_plus)
  have "at (xs @ ys) (int (length xs) + (int j - 1)) = at ys (int j - 1)"
    using assms by (intro at_append_right) simp
  then have c: "resolveCountSame (xs @ ys) (int (length xs + j) - 1) = resolveCountSame ys (int j - 1)"
    by (intro ext resolveCountSame_at_cong) (simp add: algebra_simps)
  have z: "length xs + j \<noteq> 0" "j \<noteq> 0" using assms by simp_all
  show ?thesis
    unfolding FindCode_step_def a b c Let_def
    using z
    by (simp add: resolveCountSame_prefix resolveCountZero_prefix prefix_out_andThen
        andThen_prefix_out split_def)
      (auto intro!: arg_cong2 [where f = andThen] simp: fun_eq_iff resolveCountSame_prefix
        prefix_out_andThen andThen_prefix_out split_def split: prod.splits)
qed


lemma prepend_items_simps [simp]:
  "prepend_items p (Inl e) = Inl e"
  "prepend_items p (Inr out) = Inr (p @ out)"
  by (simp_all add: prepend_items_def)

lemma FindCode_alt:
  "FindCode zs = andThen (foldE (FindCode_step zs) [0 ..< length zs] (0, 0, [])) (FindCode_finish zs)"
  by (simp add: FindCode_def FindCode_finish_def [abs_def])

lemma andThen_assoc:
  "andThen (andThen m f) g = andThen m (\<lambda>x. andThen (f x) g)"
  by (cases m) simp_all

lemma foldE_cong:
  "(\<And>s x. x \<in> set xs \<Longrightarrow> f s x = g s x) \<Longrightarrow> foldE f xs s = foldE g xs s"
proof (induction xs arbitrary: s)
  case Nil
  then show ?case by simp
next
  case (Cons x xs)
  have "f s x = g s x" using Cons.prems by simp
  moreover have "foldE f xs = foldE g xs" using Cons by auto
  ultimately show ?case by simp
qed

lemma foldE_append: "foldE f (xs @ ys) s = andThen (foldE f xs s) (foldE f ys)"
proof (induction xs arbitrary: s)
  case Nil
  then show ?case by simp
next
  case (Cons x xs)
  show ?case by (cases "f s x") (simp_all add: Cons.IH)
qed

lemma foldE_right:
  assumes "\<forall>j \<in> set js. 1 \<le> j \<and> j < length ys"
  shows "foldE (FindCode_step (xs @ ys)) (map ((+) (length xs)) js) (cz, cs, p @ out)
         = prefix_out p (foldE (FindCode_step ys) js (cz, cs, out))"
  using assms
proof (induction js arbitrary: cz cs out)
  case Nil
  then show ?case by simp
next
  case (Cons j js)
  have j: "1 \<le> j" "j < length ys" using Cons.prems by simp_all
  have IH: "\<And>cz cs out. foldE (FindCode_step (xs @ ys)) (map ((+) (length xs)) js) (cz, cs, p @ out)
         = prefix_out p (foldE (FindCode_step ys) js (cz, cs, out))"
    using Cons by simp
  show ?case
    by (cases "FindCode_step ys (cz, cs, out) j")
      (auto simp: FindCode_step_right [OF j] IH)
qed

lemma resolveCountZero_Inr:
  "resolveCountZero st = Inr (cz', cs', out') \<Longrightarrow> cz' = 0 \<and> cs' = fst (snd st)"
  by (auto simp: resolveCountZero_def split: prod.splits if_splits)

lemma resolveCountSame_Inr:
  "resolveCountSame zs j st = Inr (cz', cs', out') \<Longrightarrow> cz' = fst st \<and> cs' = 0"
  by (auto simp: resolveCountSame_def andThen_eq_Inr split: prod.splits if_splits)

lemma FindCode_step_cz:
  assumes "FindCode_step zs (cz, cs, out) i = Inr (cz', cs', out')"
    and "zs ! i \<noteq> 0" and "i = 0 \<or> zs ! (i - 1) \<noteq> 0 \<longrightarrow> cz = 0"
  shows "cz' = 0"
proof (cases "i = 0 \<or> zs ! i \<noteq> zs ! (i - 1)")
  case True
  with assms(1,2) obtain st1 cz2 cs2 out2 where
    "resolveCountZero (cz, cs, out) = Inr st1"
    "resolveCountSame zs (int i - 1) st1 = Inr (cz2, cs2, out2)" "cz' = cz2"
    by (auto simp: FindCode_step_def Let_def andThen_eq_Inr)
  then show ?thesis
    by (cases st1) (auto dest!: resolveCountZero_Inr resolveCountSame_Inr)
next
  case False
  with assms(2) have "zs ! (i - 1) \<noteq> 0" by auto
  with assms(3) have "cz = 0" by simp
  with False assms(1,2) show ?thesis
    by (auto simp: FindCode_step_def Let_def split: if_splits)
qed

lemma upt_Suc_snoc: "[0 ..< Suc n] = [0 ..< n] @ [n]"
  by simp

lemma FindCode_loop_cz:
  "foldE (FindCode_step zs) [0 ..< n] (0, 0, []) = Inr (cz, cs, out) \<Longrightarrow>
   n = 0 \<or> zs ! (n - 1) \<noteq> 0 \<Longrightarrow> cz = 0"
proof (induction n arbitrary: cz cs out)
  case 0
  then show ?case by simp
next
  case (Suc n)
  from Suc.prems(1) obtain cz0 cs0 out0 where
    a: "foldE (FindCode_step zs) [0 ..< n] (0, 0, []) = Inr (cz0, cs0, out0)" and
    b: "FindCode_step zs (cz0, cs0, out0) n = Inr (cz, cs, out)"
    by (auto simp: foldE_append andThen_eq_Inr simp del: upt_Suc simp add: upt_Suc_snoc)
  have "n = 0 \<or> zs ! (n - 1) \<noteq> 0 \<longrightarrow> cz0 = 0"
    using Suc.IH [OF a] by blast
  from FindCode_step_cz [OF b _ this] Suc.prems(2) show ?case by simp
qed


lemma FindCode_step_first:
  "FindCode_step ys (0, 0, []) 0 =
     (if ys ! 0 = 0 then Inr (1, 0, []) else Inr (0, 0, [(ys ! 0, 0)]))"
  by (simp add: FindCode_step_def resolveCountSame_def resolveCountZero_def)

lemma FindCode_step_boundary:
  assumes "xs \<noteq> []" "ys \<noteq> []" "last xs \<noteq> hd ys" "last xs \<noteq> 0 \<longrightarrow> cz = 0"
  shows "FindCode_step (xs @ ys) (cz, cs, out) (length xs) =
     andThen (resolveCountZero (cz, cs, out)) (\<lambda>st1.
     andThen (resolveCountSame xs (int (length xs) - 1) st1) (\<lambda>(cz', cs', out').
       prefix_out out' (FindCode_step ys (0, 0, []) 0)))"
proof -
  have y: "(xs @ ys) ! length xs = hd ys" "ys ! 0 = hd ys"
    using assms(2) by (simp_all add: hd_conv_nth nth_append)
  have "length xs - 1 < length xs" using assms(1) by simp
  then have l: "(xs @ ys) ! (length xs - Suc 0) = last xs"
    using assms(1) by (simp add: nth_append last_conv_nth)
  have c: "resolveCountSame (xs @ ys) (int (length xs) - 1) = resolveCountSame xs (int (length xs) - 1)"
    by (intro ext resolveCountSame_at_cong at_append_left) simp
  note n = assms(1)
  show ?thesis
  proof (cases "hd ys = 0")
    case True
    with assms(3,4) have cz: "cz = 0" by simp
    have z: "resolveCountZero (0, cs, out) = Inr (0, cs, out)"
      by (simp add: resolveCountZero_def)
    have F: "FindCode_step ys (0, 0, []) 0 = Inr (1, 0, [])"
      using True y by (simp add: FindCode_step_first)
    show ?thesis
    proof (cases "resolveCountSame xs (int (length xs) - 1) (0, cs, out)")
      case (Inl e)
      then show ?thesis
        unfolding F by (simp add: FindCode_step_def y c cz z True)
    next
      case (Inr st)
      obtain a b d where st: "st = (a, b, d)" by (cases st)
      from resolveCountSame_Inr [OF Inr [unfolded st]] have "a = 0" "b = 0" by simp_all
      with Inr st show ?thesis
        unfolding F by (simp add: FindCode_step_def y c cz z True)
    qed
  next
    case False
    have ne: "hd ys \<noteq> last xs" using assms(3) by simp
    have F: "FindCode_step ys (0, 0, []) 0 = Inr (0, 0, [(hd ys, 0)])"
      using False y by (simp add: FindCode_step_first)
    show ?thesis
    proof (cases "resolveCountZero (cz, cs, out)")
      case (Inl e)
      then show ?thesis
        unfolding F by (simp add: FindCode_step_def Let_def y l c n False ne)
    next
      case (Inr st1)
      note r1 = Inr
      obtain a1 b1 d1 where st1: "st1 = (a1, b1, d1)" by (cases st1)
      from resolveCountZero_Inr [OF r1 [unfolded st1]] have a1: "a1 = 0" by simp
      show ?thesis
      proof (cases "resolveCountSame xs (int (length xs) - 1) st1")
        case (Inl e)
        with r1 show ?thesis
          unfolding F by (simp add: FindCode_step_def Let_def y l c n False ne)
      next
        case (Inr st2)
        obtain a b d where st2: "st2 = (a, b, d)" by (cases st2)
        from resolveCountSame_Inr [OF Inr [unfolded st1 st2]] a1 have "a = 0" "b = 0"
          by simp_all
        with Inr r1 st2 show ?thesis
          unfolding F by (simp add: FindCode_step_def Let_def y l c n False ne)
      qed
    qed
  qed
qed

lemma FindCode_finish_right:
  assumes "ys \<noteq> []"
  shows "FindCode_finish (xs @ ys) (cz, cs, p @ out)
         = prepend_items p (FindCode_finish ys (cz, cs, out))"
proof -
  have "at (xs @ ys) (int (length xs) + (int (length ys) - 1)) = at ys (int (length ys) - 1)"
    using assms by (intro at_append_right) (simp add: Suc_leI)
  then have c: "resolveCountSame (xs @ ys) (int (length xs) + int (length ys) - 1)
                = resolveCountSame ys (int (length ys) - 1)"
    by (intro ext resolveCountSame_at_cong) (simp add: algebra_simps)
  show ?thesis
  proof (cases "resolveCountZero (cz, cs, out)")
    case (Inl e)
    then show ?thesis
      by (simp add: FindCode_finish_def resolveCountZero_prefix)
  next
    case (Inr st1)
    obtain a1 b1 d1 where st1: "st1 = (a1, b1, d1)" by (cases st1)
    show ?thesis
      by (cases "resolveCountSame ys (int (length ys) - 1) (a1, b1, d1)")
        (auto simp: FindCode_finish_def resolveCountZero_prefix Inr st1 c
          resolveCountSame_prefix)
  qed
qed

lemma upt_shift: "map ((+) n) [Suc 0 ..< m] = [Suc n ..< n + m]"
  by (induction m) auto

lemma FindCode_split:
  assumes "xs \<noteq> []" "ys \<noteq> []" "last xs \<noteq> hd ys"
  shows "FindCode (xs @ ys) = andThen (FindCode xs) (\<lambda>a. prepend_items a (FindCode ys))"
proof -
  let ?n = "length xs" and ?m = "length ys"
  let ?S0 = "(0, 0, []) :: rle_state"
  have m: "0 < ?m" and n: "0 < ?n" using assms by simp_all
  have idx: "[0 ..< length (xs @ ys)] = [0 ..< ?n] @ ?n # map ((+) ?n) [Suc 0 ..< ?m]"
    using m by (simp add: upt_shift upt_add_eq_append [of 0 ?n ?m, simplified] upt_conv_Cons)
  have idy: "[0 ..< ?m] = 0 # [Suc 0 ..< ?m]"
    using m by (simp add: upt_conv_Cons)
  have left: "foldE (FindCode_step (xs @ ys)) [0 ..< ?n] ?S0 = foldE (FindCode_step xs) [0 ..< ?n] ?S0"
    by (rule foldE_cong) (simp add: FindCode_step_left)
  have L: "FindCode (xs @ ys) =
      andThen (foldE (FindCode_step xs) [0 ..< ?n] ?S0) (\<lambda>S.
      andThen (FindCode_step (xs @ ys) S ?n) (\<lambda>S'.
      andThen (foldE (FindCode_step (xs @ ys)) (map ((+) ?n) [Suc 0 ..< ?m]) S')
        (FindCode_finish (xs @ ys))))"
    unfolding FindCode_alt idx foldE_append left
    by (cases "foldE (FindCode_step xs) [0 ..< ?n] ?S0")
      (simp_all add: andThen_assoc)
  have Y: "FindCode ys =
      andThen (FindCode_step ys ?S0 0) (\<lambda>T.
      andThen (foldE (FindCode_step ys) [Suc 0 ..< ?m] T) (FindCode_finish ys))"
    unfolding FindCode_alt idy
    by (cases "FindCode_step ys ?S0 0") simp_all
  note Xa = FindCode_alt [of xs]
  show ?thesis
  proof (cases "foldE (FindCode_step xs) [0 ..< ?n] ?S0")
    case (Inl e)
    then show ?thesis by (simp add: L Xa)
  next
    case (Inr S)
    note fS = Inr
    obtain cz cs out where S: "S = (cz, cs, out)" by (cases S)
    have "xs ! (?n - 1) = last xs" using assms(1) by (simp add: last_conv_nth)
    with FindCode_loop_cz [OF fS [unfolded S]] n have cz: "last xs \<noteq> 0 \<longrightarrow> cz = 0"
      by auto
    note B = FindCode_step_boundary [OF assms cz, of cs out]
    show ?thesis
    proof (cases "resolveCountZero (cz, cs, out)")
      case (Inl e)
      then show ?thesis by (simp add: L Xa fS S B FindCode_finish_def)
    next
      case (Inr st1)
      note r1 = Inr
      show ?thesis
      proof (cases "resolveCountSame xs (int ?n - 1) st1")
        case (Inl e)
        then show ?thesis by (simp add: L Xa fS S B r1 FindCode_finish_def)
      next
        case (Inr st2)
        note r2 = Inr
        obtain a b ox where st2: "st2 = (a, b, ox)" by (cases st2)
        have X: "FindCode xs = Inr ox"
          by (simp add: Xa fS S FindCode_finish_def r1 r2 st2)
        show ?thesis
        proof (cases "FindCode_step ys ?S0 0")
          case (Inl e)
          then show ?thesis by (simp add: L fS S B r1 r2 st2 X Y)
        next
          case (Inr T)
          note t = Inr
          obtain c d q where T: "T = (c, d, q)" by (cases T)
          have R: "foldE (FindCode_step (xs @ ys)) (map ((+) ?n) [Suc 0 ..< ?m]) (c, d, ox @ q)
                   = prefix_out ox (foldE (FindCode_step ys) [Suc 0 ..< ?m] (c, d, q))"
            by (rule foldE_right) simp
          show ?thesis
          proof (cases "foldE (FindCode_step ys) [Suc 0 ..< ?m] (c, d, q)")
            case (Inl e)
            then show ?thesis by (simp add: L fS S B r1 r2 st2 X Y t T R)
          next
            case (Inr U)
            obtain c2 d2 q2 where U: "U = (c2, d2, q2)" by (cases U)
            show ?thesis
              by (simp add: L fS S B r1 r2 st2 X Y t T R Inr U
                  FindCode_finish_right [OF assms(2)])
          qed
        qed
      qed
    qed
  qed
qed

lemma FindCode_Nil: "FindCode [] = Inr []"
  by (simp add: FindCode_def resolveCountZero_def resolveCountSame_def)

lemma FindCode_run_between:
  assumes "run \<noteq> []"
    and "pre = [] \<or> last pre \<noteq> hd run"
    and "post = [] \<or> hd post \<noteq> last run"
  shows "FindCode (pre @ run @ post) =
     andThen (FindCode pre) (\<lambda>a. andThen (FindCode run) (\<lambda>r.
       prepend_items (a @ r) (FindCode post)))"
proof -
  have rp: "FindCode (run @ post) = andThen (FindCode run) (\<lambda>r. prepend_items r (FindCode post))"
  proof (cases "post = []")
    case True
    then show ?thesis by (cases "FindCode run") (simp_all add: FindCode_Nil)
  next
    case False
    with assms(3) have "last run \<noteq> hd post" by auto
    from FindCode_split [OF assms(1) False this] show ?thesis .
  qed
  show ?thesis
  proof (cases "pre = []")
    case True
    then show ?thesis
      by (cases "FindCode run"; cases "FindCode post") (simp_all add: rp FindCode_Nil)
  next
    case False
    with assms(2) have "last pre \<noteq> hd (run @ post)" using assms(1) by auto
    from FindCode_split [OF False _ this] assms(1)
    have "FindCode (pre @ run @ post)
          = andThen (FindCode pre) (\<lambda>a. prepend_items a (FindCode (run @ post)))"
      by simp
    then show ?thesis
      by (cases "FindCode pre"; cases "FindCode run"; cases "FindCode post")
        (simp_all add: rp)
  qed
qed


text \<open>The encoder never fails: the counters stay below their limits.\<close>

lemma resolveCountZero_total:
  "0 \<le> cz \<Longrightarrow> cz < 138 \<Longrightarrow> \<exists>out'. resolveCountZero (cz, cs, out) = Inr (0, cs, out')"
  by (simp add: resolveCountZero_def)

lemma resolveCountSame_total:
  "0 \<le> cs \<Longrightarrow> cs < 6 \<Longrightarrow> cs \<noteq> 0 \<longrightarrow> 0 \<le> j \<and> j < int (length zs) \<Longrightarrow>
   \<exists>out'. resolveCountSame zs j (cz, cs, out) = Inr (cz, 0, out')"
  by (auto simp: resolveCountSame_def at_def)

lemma FindCode_step_total:
  assumes "0 \<le> cz" "cz < 138" "0 \<le> cs" "cs < 6" "cs \<noteq> 0 \<longrightarrow> 1 \<le> i" "i < length zs"
  shows "\<exists>cz' cs' out'. FindCode_step zs (cz, cs, out) i = Inr (cz', cs', out')
           \<and> 0 \<le> cz' \<and> cz' < 138 \<and> 0 \<le> cs' \<and> cs' < 6"
proof -
  have j: "cs \<noteq> 0 \<longrightarrow> 0 \<le> int i - 1 \<and> int i - 1 < int (length zs)"
    using assms(5,6) by auto
  from resolveCountSame_total [OF assms(3,4) j]
  obtain o1 where s1: "resolveCountSame zs (int i - 1) (cz, cs, out) = Inr (cz, 0, o1)"
    by blast
  from resolveCountZero_total [OF assms(1,2)]
  obtain o2 where z2: "resolveCountZero (cz, cs, out) = Inr (0, cs, o2)" by blast
  from resolveCountSame_total [OF assms(3,4) j]
  obtain o3 where s3: "resolveCountSame zs (int i - 1) (0, cs, o2) = Inr (0, 0, o3)"
    by blast
  show ?thesis
    using assms(1-4) by (auto simp: FindCode_step_def Let_def s1 z2 s3)
qed

lemma FindCode_loop_total:
  "n \<le> length zs \<Longrightarrow>
   \<exists>cz cs out. foldE (FindCode_step zs) [0 ..< n] (0, 0, []) = Inr (cz, cs, out)
      \<and> 0 \<le> cz \<and> cz < 138 \<and> 0 \<le> cs \<and> cs < 6 \<and> (cs \<noteq> 0 \<longrightarrow> 1 \<le> n)"
proof (induction n)
  case 0
  then show ?case by simp
next
  case (Suc n)
  then obtain cz cs out where
    f: "foldE (FindCode_step zs) [0 ..< n] (0, 0, []) = Inr (cz, cs, out)" and
    b: "0 \<le> cz" "cz < 138" "0 \<le> cs" "cs < 6" "cs \<noteq> 0 \<longrightarrow> 1 \<le> n"
    by auto
  have "n < length zs" using Suc.prems by simp
  from FindCode_step_total [OF b this, of out] f show ?case
    by (auto simp: foldE_append upt_Suc_snoc simp del: upt_Suc)
qed

lemma FindCode_total: "\<exists>items. FindCode zs = Inr items"
proof -
  from FindCode_loop_total [of "length zs" zs]
  obtain cz cs out where
    f: "foldE (FindCode_step zs) [0 ..< length zs] (0, 0, []) = Inr (cz, cs, out)" and
    b: "0 \<le> cz" "cz < 138" "0 \<le> cs" "cs < 6" "cs \<noteq> 0 \<longrightarrow> 1 \<le> length zs"
    by auto
  from resolveCountZero_total [OF b(1,2)]
  obtain o2 where z2: "resolveCountZero (cz, cs, out) = Inr (0, cs, o2)" by blast
  have "cs \<noteq> 0 \<longrightarrow> 0 \<le> int (length zs) - 1 \<and> int (length zs) - 1 < int (length zs)"
    using b(5) by auto
  from resolveCountSame_total [OF b(3,4) this]
  obtain o3 where "resolveCountSame zs (int (length zs) - 1) (0, cs, o2) = Inr (0, 0, o3)"
    by blast
  with f z2 show ?thesis by (simp add: FindCode_def)
qed

lemma FindCode_zeros_138: "FindCode (replicate 138 0) = Inr [(18, 127)]"
  by code_simp

lemma FindCode_zeros_139: "FindCode (replicate 139 0) = Inr [(18, 127), (0, 0)]"
  by code_simp

lemma FindCode_five: "v \<noteq> 0 \<Longrightarrow> FindCode (replicate 5 v) = Inr [(v, 0), (16, 1)]"
  by (simp add: FindCode_def eval_nat_numeral FindCode_step_def resolveCountSame_def
      resolveCountZero_def upt_rec at_def)

lemma FindCode_run_emits:
  assumes "run \<noteq> []" and "FindCode run = Inr r"
    and "pre = [] \<or> last pre \<noteq> hd run"
    and "post = [] \<or> hd post \<noteq> last run"
  shows "\<exists>a b. FindCode pre = Inr a \<and> FindCode post = Inr b
           \<and> FindCode (pre @ run @ post) = Inr (a @ r @ b)"
proof -
  obtain a b where "FindCode pre = Inr a" "FindCode post = Inr b"
    using FindCode_total by blast
  with FindCode_run_between [OF assms(1,3,4)] assms(2) show ?thesis by simp
qed

text \<open>
  Claim C6. In every code-length vector, a run of exactly 138 zeros is encoded as one
  item of code 18 with offset 127, a run of 139 zeros as that item followed by one literal
  0, and five consecutive occurrences of a non-zero value \<open>v\<close> as the literal \<open>v\<close>
  followed by one item of code 16 with offset 1. The run stands between any \<open>pre\<close> and
  \<open>post\<close> that do not extend it; the items before and after are those of \<open>pre\<close> and
  \<open>post\<close>, and the encoder fails on no vector.
\<close>

theorem FindCode_runs:
  "((pre = [] \<or> last pre \<noteq> 0) \<and> (post = [] \<or> hd post \<noteq> 0) \<longrightarrow>
      (\<exists>a b. FindCode pre = Inr a \<and> FindCode post = Inr b
         \<and> FindCode (pre @ replicate 138 0 @ post) = Inr (a @ [(18, 127)] @ b)
         \<and> FindCode (pre @ replicate 139 0 @ post) = Inr (a @ [(18, 127), (0, 0)] @ b)))
   \<and> (v \<noteq> 0 \<and> (pre = [] \<or> last pre \<noteq> v) \<and> (post = [] \<or> hd post \<noteq> v) \<longrightarrow>
      (\<exists>a b. FindCode pre = Inr a \<and> FindCode post = Inr b
         \<and> FindCode (pre @ replicate 5 v @ post) = Inr (a @ [(v, 0), (16, 1)] @ b)))"
proof (intro conjI impI)
  assume h: "(pre = [] \<or> last pre \<noteq> 0) \<and> (post = [] \<or> hd post \<noteq> 0)"
  obtain a b where ab: "FindCode pre = Inr a" "FindCode post = Inr b"
    using FindCode_total by blast
  have "FindCode (pre @ replicate 138 0 @ post) = Inr (a @ [(18, 127)] @ b)"
    using FindCode_run_emits [of "replicate 138 0" _ pre post, OF _ FindCode_zeros_138] h ab
    by auto
  moreover have "FindCode (pre @ replicate 139 0 @ post) = Inr (a @ [(18, 127), (0, 0)] @ b)"
    using FindCode_run_emits [of "replicate 139 0" _ pre post, OF _ FindCode_zeros_139] h ab
    by auto
  ultimately show "\<exists>a b. FindCode pre = Inr a \<and> FindCode post = Inr b
         \<and> FindCode (pre @ replicate 138 0 @ post) = Inr (a @ [(18, 127)] @ b)
         \<and> FindCode (pre @ replicate 139 0 @ post) = Inr (a @ [(18, 127), (0, 0)] @ b)"
    using ab by blast
next
  assume h: "v \<noteq> 0 \<and> (pre = [] \<or> last pre \<noteq> v) \<and> (post = [] \<or> hd post \<noteq> v)"
  then have v: "v \<noteq> 0" by simp
  from FindCode_run_emits [of "replicate 5 v" _ pre post, OF _ FindCode_five [OF v]] h
  show "\<exists>a b. FindCode pre = Inr a \<and> FindCode post = Inr b
         \<and> FindCode (pre @ replicate 5 v @ post) = Inr (a @ [(v, 0), (16, 1)] @ b)"
    by auto
qed

theorem FindCode_runs_witness:
  "FindCode ([3] @ replicate 138 0 @ [5]) = Inr ([(3, 0)] @ [(18, 127)] @ [(5, 0)])
   \<and> FindCode ([3] @ replicate 139 0 @ [5]) = Inr ([(3, 0)] @ [(18, 127), (0, 0)] @ [(5, 0)])
   \<and> FindCode ([3] @ replicate 5 7 @ [5]) = Inr ([(3, 0)] @ [(7, 0), (16, 1)] @ [(5, 0)])"
proof -
  have a: "FindCode [3] = Inr [(3, 0)]" and b: "FindCode [5] = Inr [(5, 0)]"
    by code_simp+
  from FindCode_runs [of "[3]" "[5]" 7] a b show ?thesis by simp
qed

section \<open>The framing of the plain Huffman codec\<close>

lemma bitstring_simps [simp]:
  "bitstring []"
  "bitstring (c # cs) \<longleftrightarrow> (c = 48 \<or> c = 49) \<and> bitstring cs"
  "bitstring (xs @ ys) \<longleftrightarrow> bitstring xs \<and> bitstring ys"
  by (auto simp: bitstring_def)

lemma bitstring_take: "bitstring b \<Longrightarrow> bitstring (take n b)"
  and bitstring_drop: "bitstring b \<Longrightarrow> bitstring (drop n b)"
  by (auto simp: bitstring_def list_all_iff dest: in_set_takeD in_set_dropD)

lemma fmt_bits_high:
  assumes "d = 0 \<or> d = 1" "0 \<le> v" "v < 2 ^ n"
  shows "fmt_bits (Suc n) (d * 2 ^ n + v) = of_int (48 + d) # fmt_bits n v"
  using assms
proof (induction n arbitrary: v)
  case 0
  then have "v = 0" by simp
  with 0 show ?case by auto
next
  case (Suc n)
  have e: "d * 2 ^ Suc n + v = v + 2 * (d * 2 ^ n)" by simp
  have h: "(d * 2 ^ Suc n + v) div 2 = d * 2 ^ n + v div 2"
    and m: "(d * 2 ^ Suc n + v) mod 2 = v mod 2"
    unfolding e by simp_all
  have "0 \<le> v div 2" "v div 2 < 2 ^ n" using Suc.prems by auto
  from Suc.IH [OF Suc.prems(1) this]
  have "fmt_bits (Suc n) (d * 2 ^ n + v div 2) = of_int (48 + d) # fmt_bits n (v div 2)" .
  then show ?case
    by (simp only: fmt_bits.simps(2) [of "Suc n"] h m) simp
qed

lemma fmt_bits_pad:
  assumes "0 \<le> v" "v < 2 ^ n"
  shows "fmt_bits (k + n) v = replicate k 48 @ fmt_bits n v"
proof (induction k)
  case 0
  then show ?case by simp
next
  case (Suc k)
  have "v < 2 ^ (k + n)" using assms(2)
    by (smt (verit) le_add2 power_increasing)
  from fmt_bits_high [of 0 v "k + n", OF _ assms(1) this]
  have "fmt_bits (Suc (k + n)) v = 48 # fmt_bits (k + n) v" by simp
  with Suc show ?case by simp
qed

lemma binVal_bits:
  "bitstring c \<Longrightarrow>
   \<exists>v. binVal c acc = Some (acc * 2 ^ length c + v) \<and> 0 \<le> v \<and> v < 2 ^ length c
       \<and> fmt_bits (length c) v = c"
proof (induction c arbitrary: acc)
  case Nil
  then show ?case by simp
next
  case (Cons x c)
  then have x: "x = 48 \<or> x = 49" and c: "bitstring c" by simp_all
  define d :: int where "d = (if x = 48 then 0 else 1)"
  have d: "d = 0 \<or> d = 1" "x = of_int (48 + d)" using x by (auto simp: d_def)
  have step: "binVal (x # c) acc = binVal c (2 * acc + d)"
    using x by (auto simp: d_def)
  from Cons.IH [OF c, of "2 * acc + d"] obtain v where
    v: "binVal c (2 * acc + d) = Some ((2 * acc + d) * 2 ^ length c + v)"
       "0 \<le> v" "v < 2 ^ length c" "fmt_bits (length c) v = c"
    by blast
  let ?w = "d * 2 ^ length c + v"
  have "binVal (x # c) acc = Some (acc * 2 ^ length (x # c) + ?w)"
    by (simp only: step v(1)) (simp add: algebra_simps)
  moreover have "0 \<le> ?w" using d(1) v(2) by auto
  moreover have "?w < 2 ^ length (x # c)"
  proof -
    have "0 < (2::int) ^ length c" by simp
    moreover have "d * 2 ^ length c \<le> 2 ^ length c" using d(1) by auto
    ultimately have "?w < 2 ^ length c + 2 ^ length c" using v(3) by linarith
    then show ?thesis by simp
  qed
  moreover have "fmt_bits (length (x # c)) ?w = x # c"
    using fmt_bits_high [OF d(1) v(2,3)] v(4) d(2) by simp
  ultimately show ?case by blast
qed

lemma ParseUint_fmt:
  assumes "bitstring c" "c \<noteq> []" "length c \<le> 8"
  shows "\<exists>b. ParseUint2_8 c = Inr b \<and> fmt08b b = replicate (8 - length c) 48 @ c"
proof -
  from binVal_bits [OF assms(1), of 0] obtain v where
    v: "binVal c 0 = Some v" "0 \<le> v" "v < 2 ^ length c" "fmt_bits (length c) v = c"
    by auto
  have "(2::int) ^ length c \<le> 2 ^ 8" using assms(3) by (intro power_increasing) simp_all
  with v(3) have lt: "v < 256" by simp
  then have u: "uint (of_int v :: byte) = v" using v(2)
    by (simp add: uint_word_of_int take_bit_int_eq_self)
  have "fmt_bits ((8 - length c) + length c) v = replicate (8 - length c) 48 @ fmt_bits (length c) v"
    by (rule fmt_bits_pad [OF v(2,3)])
  then have "fmt08b (of_int v) = replicate (8 - length c) 48 @ c"
    using assms(3) by (simp add: fmt08b_def u v(4))
  moreover have "ParseUint2_8 c = Inr (of_int v)"
    using assms(2) v(1) lt by (simp add: ParseUint2_8_def)
  ultimately show ?thesis by blast
qed


lemma slice_take: "0 \<le> i \<Longrightarrow> i \<le> int (length b) \<Longrightarrow> slice b 0 i = Inr (take (nat i) b)"
  by (simp add: slice_def)

lemma slice_chunk:
  "8 \<le> i \<Longrightarrow> i \<le> int (length b) \<Longrightarrow> slice b (i - 8) i = Inr (take 8 (drop (nat (i - 8)) b))"
  by (simp add: slice_def)

lemma asByteSlice_loop_unfold:
  "0 < i \<Longrightarrow> (if i < 8 then slice b 0 i else slice b (i - 8) i) = Inr chunk \<Longrightarrow>
   ParseUint2_8 chunk = Inr bv \<Longrightarrow>
   asByteSlice_loop b i outp = asByteSlice_loop b (i - 8) (outp @ [bv])"
  by (subst asByteSlice_loop.simps) simp

lemma asByteSlice_loop_stop: "i \<le> 0 \<Longrightarrow> asByteSlice_loop b i outp = Inr outp"
  by (subst asByteSlice_loop.simps) simp

lemma asByteSlice_loop_bits:
  "bitstring b \<Longrightarrow> 0 \<le> i \<Longrightarrow> i \<le> int (length b) \<Longrightarrow>
    \<exists>R. asByteSlice_loop b i out = Inr (out @ R)
       \<and> concat (map fmt08b (rev R)) = replicate (nat ((8 - i mod 8) mod 8)) 48 @ take (nat i) b"
proof (induction b i out rule: asByteSlice_loop.induct)
  case (1 b i outp)
  note bits = "1.prems"(1)
  show ?case
  proof (cases "i = 0")
    case True
    then show ?thesis by (simp add: asByteSlice_loop_stop)
  next
    case False
    with "1.prems" have pos: "0 < i" by simp
    show ?thesis
    proof (cases "i < 8")
      case True
      let ?chunk = "take (nat i) b"
      have sl: "(if i < 8 then slice b 0 i else slice b (i - 8) i) = Inr ?chunk"
        using "1.prems" True by (simp add: slice_take)
      have len: "length ?chunk = nat i" using "1.prems" by simp
      have "\<exists>bv. ParseUint2_8 ?chunk = Inr bv \<and> fmt08b bv = replicate (8 - length ?chunk) 48 @ ?chunk"
        using pos True len by (intro ParseUint_fmt bitstring_take bits) auto
      then obtain bv where bv: "ParseUint2_8 ?chunk = Inr bv"
        "fmt08b bv = replicate (8 - nat i) 48 @ ?chunk" using len by auto
      have "asByteSlice_loop b (i - 8) (outp @ [bv]) = Inr (outp @ [bv])"
        using True by (intro asByteSlice_loop_stop) simp
      then have lp: "asByteSlice_loop b i outp = Inr (outp @ [bv])"
        by (simp only: asByteSlice_loop_unfold [OF pos sl bv(1)])
      have "i mod 8 = i" using pos True by (intro mod_pos_pos_trivial) simp_all
      moreover have "(8 - i) mod 8 = 8 - i" using pos True by (intro mod_pos_pos_trivial) simp_all
      ultimately have "(8 - i mod 8) mod 8 = 8 - i" by simp
      then have "nat ((8 - i mod 8) mod 8) = 8 - nat i" using pos by simp
      then show ?thesis using bv(2) lp by simp
    next
      case False
      then have ge: "8 \<le> i" by simp
      let ?chunk = "take 8 (drop (nat (i - 8)) b)"
      have sl: "(if i < 8 then slice b 0 i else slice b (i - 8) i) = Inr ?chunk"
        using ge "1.prems" False by (simp add: slice_chunk)
      have len: "length ?chunk = 8" using ge "1.prems" by simp
      have "\<exists>bv. ParseUint2_8 ?chunk = Inr bv \<and> fmt08b bv = replicate (8 - length ?chunk) 48 @ ?chunk"
        using len by (intro ParseUint_fmt bitstring_take bitstring_drop bits) auto
      then obtain bv where bv: "ParseUint2_8 ?chunk = Inr bv" "fmt08b bv = ?chunk"
        using len by auto
      have "0 \<le> i - 8" "i - 8 \<le> int (length b)" using ge "1.prems" by simp_all
      from "1.IH" [OF pos sl bv(1) bits this]
      obtain R where R: "asByteSlice_loop b (i - 8) (outp @ [bv]) = Inr ((outp @ [bv]) @ R)"
        "concat (map fmt08b (rev R)) =
           replicate (nat ((8 - (i - 8) mod 8) mod 8)) 48 @ take (nat (i - 8)) b"
        by blast
      have m: "(i - 8) mod 8 = i mod 8" by (simp add: mod_diff_right_eq [symmetric, of i 8 8])
      have "nat i = nat (i - 8) + 8" using ge by simp
      then have t: "take (nat i) b = take (nat (i - 8)) b @ ?chunk"
        by (simp only: take_add)
      have "asByteSlice_loop b i outp = Inr (outp @ (bv # R))"
        using R(1) by (simp only: asByteSlice_loop_unfold [OF pos sl bv(1)]) simp
      moreover have "concat (map fmt08b (rev (bv # R)))
          = replicate (nat ((8 - i mod 8) mod 8)) 48 @ take (nat i) b"
        using R(2) bv(2) by (simp only: m t) simp
      ultimately show ?thesis by blast
    qed
  qed
qed

lemma asByteSlice_bits:
  assumes "bitstring b"
  shows "\<exists>payload. asByteSlice b = Inr payload
     \<and> concat (map fmt08b payload)
         = replicate (nat ((8 - int (length b) mod 8) mod 8)) 48 @ b"
proof -
  from asByteSlice_loop_bits [OF assms, of "int (length b)" "[]"]
  obtain R where "asByteSlice_loop b (int (length b)) [] = Inr R"
    "concat (map fmt08b (rev R)) = replicate (nat ((8 - int (length b) mod 8) mod 8)) 48 @ b"
    by auto
  then show ?thesis by (simp add: asByteSlice_def)
qed


lemma store_vals:
  "\<forall>(k, v) \<in> set m. P v \<Longrightarrow> P f \<Longrightarrow> \<forall>(k, v) \<in> set (store c f m). P v"
  by (induction m) (auto split: if_splits)

lemma getSymbolEncoding_bits:
  "bitstring p \<Longrightarrow> \<forall>(k, v) \<in> set m. bitstring v \<Longrightarrow>
   \<forall>(k, v) \<in> set (getSymbolEncoding t m p). bitstring v"
proof (induction t arbitrary: m p)
  case (huffmanLeaf f i s)
  then show ?case by (simp add: store_vals)
next
  case (huffmanNode f i l r)
  have "\<forall>(k, v) \<in> set (getSymbolEncoding l m (p @ [48])). bitstring v"
    using huffmanNode.prems by (intro huffmanNode.IH(1)) simp_all
  then show ?case
    using huffmanNode.prems by (simp del: bitstring_simps(3)) (intro huffmanNode.IH(2), simp_all)
qed

lemma encode_symbols_bits:
  "\<forall>(k, v) \<in> set m. bitstring v \<Longrightarrow> bitstring out0 \<Longrightarrow>
   encode_symbols m rs out0 = Inr out \<Longrightarrow> bitstring out"
proof (induction rs arbitrary: out0)
  case Nil
  then show ?case by simp
next
  case (Cons r rs)
  from Cons.prems(3) obtain e where e: "map_of m r = Some e"
    "encode_symbols m rs (out0 @ e) = Inr out"
    by (auto split: option.splits)
  from e(1) Cons.prems(1) have "bitstring e" by (auto dest: map_of_SomeD)
  with Cons.IH [OF Cons.prems(1) _ e(2)] Cons.prems(2) show ?case by simp
qed

lemma padding_byte:
  assumes "0 \<le> p" "p < 8"
  shows "asByteSlice (FormatInt2 p) = Inr [of_int p]"
proof -
  have "asByteSlice (FormatInt2 0) = Inr [of_int 0]" by code_simp
  moreover have "asByteSlice (FormatInt2 1) = Inr [of_int 1]" by code_simp
  moreover have "asByteSlice (FormatInt2 2) = Inr [of_int 2]" by code_simp
  moreover have "asByteSlice (FormatInt2 3) = Inr [of_int 3]" by code_simp
  moreover have "asByteSlice (FormatInt2 4) = Inr [of_int 4]" by code_simp
  moreover have "asByteSlice (FormatInt2 5) = Inr [of_int 5]" by code_simp
  moreover have "asByteSlice (FormatInt2 6) = Inr [of_int 6]" by code_simp
  moreover have "asByteSlice (FormatInt2 7) = Inr [of_int 7]" by code_simp
  moreover have "p = 0 \<or> p = 1 \<or> p = 2 \<or> p = 3 \<or> p = 4 \<or> p = 5 \<or> p = 6 \<or> p = 7"
    using assms by auto
  ultimately show ?thesis by metis
qed

lemma decode_bits_padded:
  assumes "0 \<le> p" "p < 8" "concat (map fmt08b payload) = replicate (nat p) 48 @ bits"
  shows "decode_bits (of_int p # payload) = Inr bits"
proof -
  have u: "uint (of_int p :: byte) = p"
    using assms(1,2) by (simp add: uint_word_of_int take_bit_int_eq_self)
  show ?thesis
    using assms(1) by (simp add: decode_bits_def Let_def u assms(3) slice_def)
qed

text \<open>
  Claim C7, as amended. Whenever \<open>encode\<close> produces output, the output is the header,
  the terminator backslash-newline, one pad-count byte and the payload. The pad-count byte
  is \<open>(8 - n mod 8) mod 8\<close> for a payload bit string of \<open>n\<close> bits; the payload bytes,
  each written as eight bits, are that many zero bits followed by the bit string (the
  padding stands in front of the first payload bit, not at the end of the last byte); and
  the bit string that \<open>decode\<close> reads from the pad-count byte and the payload is the
  encoder's bit string.
\<close>

theorem huffman_frame:
  assumes "encode tree input compressionHeader = Inr out"
  shows "\<exists>bits payload pad.
      encode_symbols (getSymbolEncoding tree [] []) (utf8_decode input) [] = Inr bits
    \<and> pad = (8 - int (length bits) mod 8) mod 8
    \<and> out = compressionHeader @ [0x5C, 0x0A] @ [of_int pad] @ payload
    \<and> concat (map fmt08b payload) = replicate (nat pad) 48 @ bits
    \<and> decode_bits (of_int pad # payload) = Inr bits"
proof -
  let ?enc = "getSymbolEncoding tree [] []"
  from assms obtain bits paddingByte inputBytes where
    b: "encode_symbols ?enc (utf8_decode input) [] = Inr bits" and
    p: "asByteSlice (FormatInt2 ((8 - int (length bits) mod 8) mod 8)) = Inr paddingByte" and
    i: "asByteSlice bits = Inr inputBytes" and
    o: "out = compressionHeader @ [0x5C, 0x0A] @ paddingByte @ inputBytes"
    by (auto simp: encode_def Let_def andThen_eq_Inr)
  let ?pad = "(8 - int (length bits) mod 8) mod 8"
  have r: "0 \<le> ?pad" "?pad < 8" by simp_all
  have "\<forall>(k, v) \<in> set ?enc. bitstring v"
    by (rule getSymbolEncoding_bits) simp_all
  from encode_symbols_bits [OF this _ b] have bs: "bitstring bits" by simp
  from asByteSlice_bits [OF bs] i
  have c: "concat (map fmt08b inputBytes) = replicate (nat ?pad) 48 @ bits" by simp
  from padding_byte [OF r] p have pb: "paddingByte = [of_int ?pad]" by simp
  from decode_bits_padded [OF r c] b o c pb show ?thesis by simp
qed

theorem huffman_frame_witness:
  "encode (huffmanNode 3 2 (huffmanLeaf 1 1 98) (huffmanLeaf 2 0 97)) [97, 97, 98]
       [50, 124, 97, 49, 124, 98]
     = Inr ([50, 124, 97, 49, 124, 98] @ [0x5C, 0x0A] @ [5] @ [6])
   \<and> concat (map fmt08b [6]) = replicate 5 48 @ [49, 49, 48]
   \<and> decode_bits [5, 6] = Inr [49, 49, 48]"
proof -
  let ?t = "huffmanNode 3 2 (huffmanLeaf 1 1 98) (huffmanLeaf 2 0 97)"
  let ?h = "[50, 124, 97, 49, 124, 98] :: byte list"
  have e: "encode ?t [97, 97, 98] ?h = Inr (?h @ [0x5C, 0x0A] @ [5] @ [6])"
    by code_simp
  have s: "encode_symbols (getSymbolEncoding ?t [] []) (utf8_decode [97, 97, 98]) []
           = Inr [49, 49, 48]"
    by code_simp
  from huffman_frame [OF e] s obtain payload where
    "?h @ [0x5C, 0x0A] @ [5] @ [6] = ?h @ [0x5C, 0x0A] @ [5] @ payload"
    "concat (map fmt08b payload) = replicate 5 48 @ [49, 49, 48]"
    "decode_bits (5 # payload) = Inr [49, 49, 48]"
    by auto
  with e show ?thesis by simp
qed

text \<open>
  The claim as stated fails on the input \<open>aab\<close>: the bit string is \<open>110\<close>, the
  pad count 5, and the one payload byte is 6, that is \<open>00000110\<close>: its last five bits
  are not the padding.
\<close>

theorem huffman_padding_counterexample:
  "compress (\<lambda>m. m) [97, 97, 98] = Inr [50, 124, 97, 49, 124, 98, 0x5C, 0x0A, 5, 6]
   \<and> encode_symbols (getSymbolEncoding
         (huffmanNode 3 2 (huffmanLeaf 1 1 98) (huffmanLeaf 2 0 97)) [] [])
       (utf8_decode [97, 97, 98]) [] = Inr [49, 49, 48]
   \<and> fmt08b 6 = [48, 48, 48, 48, 48, 49, 49, 48]
   \<and> fmt08b 6 \<noteq> [49, 49, 48] @ replicate 5 48"
  by code_simp

section \<open>The block type field of the decoder\<close>

lemma k3: "bit (0xF9 :: byte) 3" by simp
lemma k4: "bit (0xF9 :: byte) 4" by simp
lemma k5: "bit (0xF9 :: byte) 5" by simp
lemma k6: "bit (0xF9 :: byte) 6" by simp
lemma k7: "bit (0xF9 :: byte) 7" by simp
lemma mask_bits: "3 \<le> k \<Longrightarrow> k < 8 \<Longrightarrow> bit (0xF9 :: byte) k"
proof -
  assume "3 \<le> k" "k < 8"
  then have "k = 3 \<or> k = 4 \<or> k = 5 \<or> k = 6 \<or> k = 7" by linarith
  then show ?thesis using k3 k4 k5 k6 k7 by blast
qed
lemma high_bits:
  fixes b b' :: byte
  assumes "b AND 0xF9 = b' AND 0xF9" "3 \<le> k"
  shows "bit b k = bit b' k"
proof (cases "k < 8")
  case True
  have "bit (b AND 0xF9) k = bit (b' AND 0xF9) k" by (simp only: assms(1))
  then show ?thesis using mask_bits [OF assms(2) True] by (simp only: bit_and_iff) simp
next
  case False
  then have "\<not> bit b k" "\<not> bit b' k" by (auto dest: bit_imp_le_length)
  then show ?thesis by simp
qed
lemma btype_bits_only:
  fixes b b' :: byte
  assumes "b AND 0xF9 = b' AND 0xF9"
  shows "drop_bit 3 (ucast b :: u32) = drop_bit 3 (ucast b')"
proof (rule bit_word_eqI)
  fix n assume "n < LENGTH(32)"
  have "bit b (3 + n) = bit b' (3 + n)" by (rule high_bits [OF assms]) simp
  then show "bit (drop_bit 3 (ucast b :: u32)) n = bit (drop_bit 3 (ucast b' :: u32)) n"
    using \<open>n < LENGTH(32)\<close> by (simp add: bit_drop_bit_eq bit_ucast_iff)
qed
lemma fill_bits_enough:
  "nbits \<le> bitsCount bb \<Longrightarrow> fill_bits bb input nbits = Inr ((), (bb, input))"
  by (cases input) auto

lemma read_bfinal:
  "readCompressedContent (new_bitBuffer, b # rest) 1 =
     Inr (ucast b AND 1, (\<lparr>bitsHolder = drop_bit 1 (ucast b), bitsCount = 7\<rparr>, rest))"
  by (simp add: readCompressedContent_def new_bitBuffer_def fill_bits_enough)

lemma read_btype:
  "readCompressedContent (\<lparr>bitsHolder = h, bitsCount = 7\<rparr>, rest) 2 =
     Inr (h AND 3, (\<lparr>bitsHolder = drop_bit 2 h, bitsCount = 5\<rparr>, rest))"
  by (simp add: readCompressedContent_def fill_bits_enough)

lemma flate_decompress_from_header:
  assumes "drop_bit 3 (ucast b :: u32) = drop_bit 3 (ucast b')"
  shows "flate_decompress_from (new_bitBuffer, b # rest) =
         flate_decompress_from (new_bitBuffer, b' # rest)"
proof -
  have "drop_bit 2 (drop_bit 1 (ucast b :: u32)) = drop_bit 2 (drop_bit 1 (ucast b'))"
    using assms by (simp add: drop_bit_drop_bit)
  then show ?thesis
    unfolding flate_decompress_from_def
    by (simp only: read_bfinal read_btype andThen_simps prod.case)
qed

text \<open>
  Claim C4, as amended. The decoder reads the 2-bit BTYPE field after the 1-bit BFINAL
  field and does not check it: two inputs that differ only in the BTYPE bits of their
  first byte (the bits of weight 2 and 4) are decoded to the same result, the same output
  or the same error. A stream with BTYPE other than 2 whose remaining bits are a valid
  dynamic-Huffman block is therefore decoded, not rejected.
\<close>

theorem flate_decode_ignores_btype:
  fixes b b' :: byte
  assumes "b AND 0xF9 = b' AND 0xF9"
  shows "flate_decompress (b # rest) = flate_decompress (b' # rest)"
  using flate_decompress_from_header [OF btype_bits_only [OF assms]]
  by (simp only: flate_decompress_def)

theorem flate_decode_ignores_btype_witness:
  "(11 :: byte) AND 0xF9 = 13 AND 0xF9
   \<and> flate_decompress (11 # block_aaaaaa) = flate_decompress (13 # block_aaaaaa)
   \<and> flate_decompress (13 # block_aaaaaa) = Inr [97, 97, 97, 97, 97, 97]"
proof -
  have m: "(11 :: byte) AND 0xF9 = 13 AND 0xF9" by simp
  have d: "flate_decompress (13 # block_aaaaaa) = Inr [97, 97, 97, 97, 97, 97]"
    by code_simp
  from flate_decode_ignores_btype [OF m, of block_aaaaaa] m d show ?thesis by simp
qed

text \<open>
  The claim as stated fails: the compressor run with \<open>btype = 1\<close> writes a stream whose
  BTYPE field reads 1, and the decoder returns the six bytes \<open>aaaaaa\<close> for it.
\<close>

theorem flate_btype_counterexample:
  "flate_compress 1 0 [97, 97, 97, 97, 97, 97] = Inr (10 # block_aaaaaa)
   \<and> andThen (readCompressedContent (new_bitBuffer, 10 # block_aaaaaa) 1) (\<lambda>(bfinal, r).
       andThen (readCompressedContent r 2) (\<lambda>(btype, r'). Inr btype)) = Inr 1
   \<and> flate_decompress (10 # block_aaaaaa) = Inr [97, 97, 97, 97, 97, 97]"
  by code_simp

section \<open>The tokens and the round trip of \<open>ABABABABAB\<close>\<close>

text \<open>
  Claim C5, as amended. The ten bytes \<open>ABABABABAB\<close> are tokenised into the literals
  \<open>A, B, A, B\<close>, a match of length 4 at distance 4, and the literals \<open>A, B\<close>: the
  matcher looks for a match only in the window before the current position, so a match
  never runs into the bytes it copies. The compressor of the flate package (a dynamic
  block, BFINAL 0) followed by its decompressor returns the ten bytes.
\<close>

theorem flate_ABAB_tokens_and_round_trip:
  "tokenise input_ABAB =
     Inr [literal_token 65, literal_token 66, literal_token 65, literal_token 66,
          match_token 4 4, literal_token 65, literal_token 66]
   \<and> flate_compress 2 0 input_ABAB = Inr block_ABAB
   \<and> flate_decompress block_ABAB = Inr input_ABAB"
  by code_simp

text \<open>The tokens of the claim as stated are not the tokens of the code.\<close>

theorem flate_ABAB_tokens_counterexample:
  "tokenise input_ABAB \<noteq> Inr [literal_token 65, literal_token 66, match_token 8 2]"
  by code_simp


section \<open>The frame of a gzip member\<close>











end
